theory Spec2Isabelle
  imports
    Main
    "HOL-Library.Word"
    "HOL-Library.Char_ord"
    "HOL-Library.List_Lexorder"
    "HOL-Library.Sublist"
    "HOL-Library.AList"
    "HOL-Library.Multiset"
begin

section \<open>Data model\<close>

text \<open>
  The two build scripts \<^verbatim>\<open>prepare_littlefs.py\<close> and \<^verbatim>\<open>upload_fs.py\<close> work on two
  directories of the project (\<^verbatim>\<open>src/web/build\<close> and \<^verbatim>\<open>data\<close>) and on one state file
  (\<^verbatim>\<open>.littlefs_hash\<close>).

  \<^item> A Python \<^verbatim>\<open>str\<close> is a \<open>string\<close>; a name beyond ASCII is its UTF-8 form, so that
    \<^verbatim>\<open>.encode()\<close> maps each character to one byte.
  \<^item> A \<^verbatim>\<open>pathlib.Path\<close> below a directory is the list of its components (POSIX
    flavour). \<^verbatim>\<open>Path.__lt__\<close> compares the component tuples, each component as a
    string: this is the lexicographic order of \<open>string list\<close>.
  \<^item> A directory is the list of the entries below it, each with its path relative to
    the directory, in the order in which the filesystem enumerates them
    (\<^verbatim>\<open>rglob("*")\<close>). A directory that does not exist is \<open>None\<close>.
\<close>

type_synonym byte = "8 word"
type_synonym bytes = "byte list"
type_synonym path = "string list"

datatype node = File bytes | Dir

type_synonym tree = "(path \<times> node) list"

fun is_file :: "node \<Rightarrow> bool" where
  "is_file (File _) = True"
| "is_file Dir = False"

fun is_dir :: "node \<Rightarrow> bool" where
  "is_dir (File _) = False"
| "is_dir Dir = True"

text \<open>\<^verbatim>\<open>rglob("*")\<close>: every entry below the directory, in filesystem order.\<close>

definition rglob :: "tree \<Rightarrow> (path \<times> node) list" where
  "rglob t = t"

text \<open>\<^verbatim>\<open>sorted(...)\<close> of paths: a stable sort by \<^verbatim>\<open>Path.__lt__\<close>.\<close>

definition sorted_paths :: "(path \<times> node) list \<Rightarrow> (path \<times> node) list" where
  "sorted_paths fs = sort_key fst fs"

section \<open>Strings and paths of the Python library\<close>

text \<open>\<^verbatim>\<open>sub in s\<close> for strings.\<close>

fun str_contains :: "string \<Rightarrow> string \<Rightarrow> bool" where
  "str_contains sub [] = (sub = [])"
| "str_contains sub (c # cs) = (prefix sub (c # cs) \<or> str_contains sub cs)"

text \<open>
  \<^verbatim>\<open>s.replace(old, new)\<close> for a non-empty \<open>old\<close>: the occurrences are found from the
  left and do not overlap; the text after an occurrence is searched again from its end.
  (Both calls of the source pass a non-empty \<open>old\<close>; an empty one is left alone here.)
\<close>

function str_replace :: "string \<Rightarrow> string \<Rightarrow> string \<Rightarrow> string" where
  "str_replace old new [] = []"
| "str_replace old new (c # cs) =
     (if old \<noteq> [] \<and> prefix old (c # cs)
      then new @ str_replace old new (drop (length old) (c # cs))
      else c # str_replace old new cs)"
  by pat_completeness auto
termination
  by (relation "measure (\<lambda>(old, new, s). length s)") (auto simp: neq_Nil_conv)

text \<open>\<^verbatim>\<open>str.lower()\<close>, on the ASCII letters.\<close>

definition lower_char :: "char \<Rightarrow> char" where
  "lower_char c =
     (case map_of (zip ''ABCDEFGHIJKLMNOPQRSTUVWXYZ'' ''abcdefghijklmnopqrstuvwxyz'') c of
        None \<Rightarrow> c
      | Some d \<Rightarrow> d)"

definition lower :: "string \<Rightarrow> string" where
  "lower s = map lower_char s"

text \<open>\<^verbatim>\<open>s.rfind(c)\<close>: the last index of \<open>c\<close>, or \<open>-1\<close>.\<close>

fun rfind_from :: "char \<Rightarrow> string \<Rightarrow> nat \<Rightarrow> int \<Rightarrow> int" where
  "rfind_from c [] i found = found"
| "rfind_from c (x # xs) i found = rfind_from c xs (Suc i) (if x = c then int i else found)"

definition rfind :: "char \<Rightarrow> string \<Rightarrow> int" where
  "rfind c s = rfind_from c s 0 (- 1)"

text \<open>\<^verbatim>\<open>Path.name\<close>: the final component.\<close>

definition name :: "path \<Rightarrow> string" where
  "name p = (if p = [] then [] else last p)"

text \<open>
  \<^verbatim>\<open>Path.suffix\<close> of pathlib:
  \<^verbatim>\<open>i = name.rfind('.'); return name[i:] if 0 < i < len(name) - 1 else ''\<close>.
\<close>

definition suffix_of :: "path \<Rightarrow> string" where
  "suffix_of p =
     (let nm = name p; i = rfind CHR ''.'' nm
      in if 0 < i \<and> i < int (length nm) - 1 then drop (nat i) nm else [])"

text \<open>\<^verbatim>\<open>str(path)\<close>: the components joined by \<^verbatim>\<open>/\<close>; the empty path is \<^verbatim>\<open>.\<close>.\<close>

fun str_path :: "path \<Rightarrow> string" where
  "str_path [] = ''.''"
| "str_path [c] = c"
| "str_path (c # cs) = c @ ''/'' @ str_path cs"

text \<open>
  \<^verbatim>\<open>sep.join(parts)\<close>. The scripts do not call it; it states what \<^verbatim>\<open>replace\<close> does
  to a text cut at the occurrences of a pattern.
\<close>

fun join :: "string \<Rightarrow> string list \<Rightarrow> string" where
  "join sep [] = []"
| "join sep [u] = u"
| "join sep (u # us) = u @ sep @ join sep us"

text \<open>\<^verbatim>\<open>s.split(sep)\<close> for a one-character separator.\<close>

fun split_on :: "char \<Rightarrow> string \<Rightarrow> string list" where
  "split_on sep [] = [[]]"
| "split_on sep (x # xs) =
     (if x = sep then [] # split_on sep xs
      else (case split_on sep xs of [] \<Rightarrow> [[x]] | w # ws \<Rightarrow> (x # w) # ws))"

section \<open>prepare\_littlefs.py: constants and the classification of a file\<close>

definition SUPPORTED_EXTENSIONS :: "string set" where
  "SUPPORTED_EXTENSIONS = {''.html'', ''.css'', ''.js'', ''.svg'', ''.mp3''}"

definition is_nogz :: "string \<Rightarrow> bool" where
  "is_nogz filename = str_contains ''.nogz.'' filename"

text \<open>
  The test of lines 37 to 42 of \<^verbatim>\<open>prepare\<close>, the same as the one of \<^verbatim>\<open>has_files\<close>:
  \<^verbatim>\<open>f.is_file() and f.suffix.lower() in SUPPORTED_EXTENSIONS\<close>.
\<close>

definition eligible :: "path \<times> node \<Rightarrow> bool" where
  "eligible f = (is_file (snd f) \<and> lower (suffix_of (fst f)) \<in> SUPPORTED_EXTENSIONS)"

text \<open>
  Line 46: \<^verbatim>\<open>clean_name = str(rel).replace("\\", "/").replace(".nogz", "")\<close>.
\<close>

definition clean_name :: "path \<Rightarrow> string" where
  "clean_name rel = str_replace ''.nogz'' [] (str_replace [CHR 0x5C] ''/'' (str_path rel))"

text \<open>
  The name that either branch of lines 48 to 59 joins to \<^verbatim>\<open>DATA_DIR\<close>: \<^verbatim>\<open>clean_name\<close>
  for a file copied as it is, \<^verbatim>\<open>clean_name + ".gz"\<close> for a compressed one.
\<close>

definition canonical_name :: "path \<Rightarrow> string" where
  "canonical_name rel =
     (if is_nogz (name rel) then clean_name rel else clean_name rel @ ''.gz'')"



section \<open>The filesystem operations the scripts call\<close>

text \<open>
  Every exception of the Python library that the scripts let through is a value:
  \<^item> \<open>OSError\<close>: a filesystem call raised (\<^verbatim>\<open>FileExistsError\<close>, \<^verbatim>\<open>NotADirectoryError\<close>,
    \<^verbatim>\<open>IsADirectoryError\<close>, \<^verbatim>\<open>FileNotFoundError\<close>);
  \<^item> \<open>CalledProcessError\<close>: \<^verbatim>\<open>subprocess.run\<close> with \<^verbatim>\<open>check=True\<close> saw a nonzero
    exit status;
  \<^item> \<open>OutsideDataDir\<close>: no exception, but the end of what is followed here: the
    path \<^verbatim>\<open>DATA_DIR / name\<close> is absolute or has a \<^verbatim>\<open>..\<close> component, so the write
    lands outside \<^verbatim>\<open>data/\<close>.
\<close>

datatype error = OSError | CalledProcessError | OutsideDataDir

definition bind_err :: "error + 'a \<Rightarrow> ('a \<Rightarrow> error + 'b) \<Rightarrow> error + 'b" where
  "bind_err r k = (case r of Inl e \<Rightarrow> Inl e | Inr x \<Rightarrow> k x)"

text \<open>
  \<^verbatim>\<open>DATA_DIR / s\<close>, relative to \<^verbatim>\<open>data/\<close>: pathlib splits \<open>s\<close> at \<^verbatim>\<open>/\<close> and drops
  the empty and the \<^verbatim>\<open>.\<close> components; a leading \<^verbatim>\<open>/\<close> makes the result absolute and
  drops \<^verbatim>\<open>data\<close>.
\<close>

definition data_path :: "string \<Rightarrow> error + path" where
  "data_path s =
     (if prefix ''/'' s then Inl OutsideDataDir
      else let cs = filter (\<lambda>c. c \<noteq> [] \<and> c \<noteq> ''.'') (split_on CHR ''/'' s)
           in if ''..'' \<in> set cs then Inl OutsideDataDir else Inr cs)"

text \<open>What is at a path below a directory; the empty path is the directory itself.\<close>

definition node_at :: "tree \<Rightarrow> path \<Rightarrow> node option" where
  "node_at t p = (if p = [] then Some Dir else map_of t p)"

text \<open>
  \<^verbatim>\<open>d.mkdir(parents=True, exist_ok=True)\<close> for the directory \<open>pre @ rest\<close>, whose part
  \<open>pre\<close> exists: an existing directory is kept, a missing one is made, and a file in the
  way raises.
\<close>

fun mkdirs :: "path \<Rightarrow> path \<Rightarrow> tree \<Rightarrow> error + tree" where
  "mkdirs pre [] t = Inr t"
| "mkdirs pre (c # cs) t =
     (case node_at t (pre @ [c]) of
        Some (File _) \<Rightarrow> Inl OSError
      | Some Dir \<Rightarrow> mkdirs (pre @ [c]) cs t
      | None \<Rightarrow> mkdirs (pre @ [c]) cs (t @ [(pre @ [c], Dir)]))"

definition mkdir_parents :: "path \<Rightarrow> tree \<Rightarrow> error + tree" where
  "mkdir_parents d t = mkdirs [] d t"

text \<open>\<^verbatim>\<open>out.write_bytes(b)\<close>: creates or overwrites a file; a directory there raises.\<close>

definition write_bytes :: "path \<Rightarrow> bytes \<Rightarrow> tree \<Rightarrow> error + tree" where
  "write_bytes out b t =
     (case node_at t out of
        Some Dir \<Rightarrow> Inl OSError
      | _ \<Rightarrow> Inr (AList.update out (File b) t))"

text \<open>
  \<^verbatim>\<open>shutil.copy(f, out)\<close>: when \<open>out\<close> is a directory the file goes into it under its
  own name; then the bytes are written as by \<open>write_bytes\<close>.
\<close>

definition copy :: "string \<Rightarrow> bytes \<Rightarrow> path \<Rightarrow> tree \<Rightarrow> error + tree" where
  "copy src_name b out t =
     (let dst = (if node_at t out = Some Dir then out @ [src_name] else out)
      in write_bytes dst b t)"

section \<open>prepare\_littlefs.py: prepare\<close>

text \<open>
  \<^verbatim>\<open>gzip.compress(raw, compresslevel, mtime)\<close> is the library's; the model takes it as
  the parameter \<open>gz\<close>, applied to the level, the timestamp and the bytes.
\<close>

type_synonym gzip = "nat \<Rightarrow> nat \<Rightarrow> bytes \<Rightarrow> bytes"

text \<open>
  The body of the loop of lines 36 to 61, on the output tree and the counter (\<open>cnt\<close> is
  the source's \<^verbatim>\<open>count\<close>). The source file is an entry of \<^verbatim>\<open>src/web/build\<close>: its relative path and what is there.
\<close>

fun prepare_file :: "gzip \<Rightarrow> path \<times> node \<Rightarrow> tree \<times> nat \<Rightarrow> error + (tree \<times> nat)" where
  "prepare_file gz (rel, Dir) (data, cnt) = Inr (data, cnt)"
| "prepare_file gz (rel, File raw) (data, cnt) =
     (if lower (suffix_of rel) \<notin> SUPPORTED_EXTENSIONS then Inr (data, cnt)
      else if is_nogz (name rel) then
        bind_err (data_path (clean_name rel)) (\<lambda>out.
        bind_err (mkdir_parents (butlast out) data) (\<lambda>data1.
        bind_err (copy (name rel) raw out data1) (\<lambda>data2.
        Inr (data2, cnt + 1))))
      else
        bind_err (data_path (clean_name rel @ ''.gz'')) (\<lambda>out.
        bind_err (mkdir_parents (butlast out) data) (\<lambda>data1.
        bind_err (write_bytes out (gz 9 0 raw) data1) (\<lambda>data2.
        Inr (data2, cnt + 1)))))"

fun prepare_loop :: "gzip \<Rightarrow> (path \<times> node) list \<Rightarrow> tree \<times> nat \<Rightarrow> error + (tree \<times> nat)" where
  "prepare_loop gz [] st = Inr st"
| "prepare_loop gz (f # fs) st = bind_err (prepare_file gz f st) (prepare_loop gz fs)"

text \<open>
  The cleanup of lines 64 to 70, one top-level entry of \<^verbatim>\<open>src/web/build\<close> at a time:
  \<^verbatim>\<open>shutil.rmtree\<close> removes a directory with all below it, \<^verbatim>\<open>unlink\<close> one file.
\<close>

definition iterdir :: "tree \<Rightarrow> (path \<times> node) list" where
  "iterdir t = filter (\<lambda>e. length (fst e) = 1) t"

fun cleanup_entry :: "path \<times> node \<Rightarrow> tree \<Rightarrow> tree" where
  "cleanup_entry (p, n) t =
     (if prefix ''.'' (name p) \<or> suffix_of p = ''.py'' then t
      else (case n of
              Dir \<Rightarrow> filter (\<lambda>e. \<not> prefix p (fst e)) t
            | File _ \<Rightarrow> filter (\<lambda>e. fst e \<noteq> p) t))"

definition cleanup :: "tree \<Rightarrow> tree" where
  "cleanup t = fold cleanup_entry (rev (sorted_paths (iterdir t))) t"

text \<open>The decimal digits of the counter, for the f-string of line 72.\<close>

function show_nat :: "nat \<Rightarrow> string" where
  "show_nat n =
     (if n < 10 then [''0123456789'' ! n]
      else show_nat (n div 10) @ [''0123456789'' ! (n mod 10)])"
  by pat_completeness auto
termination
  by (relation "measure id") auto

declare show_nat.simps [simp del]

text \<open>
  The state the two scripts share: the two directories, the state file
  \<^verbatim>\<open>.littlefs_hash\<close> (its text, when it exists), the lines printed to the two streams,
  and the command lines handed to \<^verbatim>\<open>subprocess.run\<close>.
\<close>

record world =
  build_dir :: "tree option"
  data_dir :: "tree option"
  hash_file :: "string option"
  stdout :: "string list"
  stderr :: "string list"
  uploads :: "string list list"

text \<open>
  \<^verbatim>\<open>prepare()\<close>. Lines 30 to 32 leave an empty \<^verbatim>\<open>data/\<close> whatever was there;
  \<^verbatim>\<open>BUILD_DIR.iterdir()\<close> raises when \<^verbatim>\<open>src/web/build\<close> is missing.
\<close>

definition prepare :: "gzip \<Rightarrow> world \<Rightarrow> error + world" where
  "prepare gz w =
     (case build_dir w of
        None \<Rightarrow> Inl OSError
      | Some b \<Rightarrow>
          bind_err (prepare_loop gz (sorted_paths (rglob b)) ([], 0)) (\<lambda>(data, cnt).
          Inr (w\<lparr>build_dir := Some (cleanup b),
                 data_dir := Some data,
                 stdout := stdout w @
                   [''LittleFS: Prepared '' @ show_nat cnt @ '' web assets in data/'']\<rparr>)))"

text \<open>The module body, lines 76 to 96.\<close>

definition has_files :: "world \<Rightarrow> bool" where
  "has_files w =
     (case build_dir w of None \<Rightarrow> False | Some b \<Rightarrow> list_ex eligible (rglob b))"

text \<open>\<^verbatim>\<open>DATA_DIR.exists() and any(DATA_DIR.rglob("*"))\<close>, of both scripts.\<close>

definition data_present :: "world \<Rightarrow> bool" where
  "data_present w = (case data_dir w of None \<Rightarrow> False | Some d \<Rightarrow> rglob d \<noteq> [])"

definition em_dash :: string where
  "em_dash = [CHR 0xE2, CHR 0x80, CHR 0x94]"

definition prepare_littlefs :: "gzip \<Rightarrow> world \<Rightarrow> error + world" where
  "prepare_littlefs gz w =
     (if \<not> has_files w then
        (if data_present w then
           Inr (w\<lparr>stdout := stdout w @
             [''No minified files in src/web/build/ '' @ em_dash @
              '' using existing data/ from repository.'']\<rparr>)
         else
           Inr (w\<lparr>stderr := stderr w @
             [''Warning: No minified files found and no pre-built data/ directory.'',
              ''Install minification tools or restore data/ from the repository.'']\<rparr>))
      else prepare gz w)"

section \<open>upload\_fs.py\<close>

text \<open>
  \<^verbatim>\<open>hashlib.sha256\<close> is the library's: the model takes the digest function as the
  parameter \<open>sha\<close>, from the bytes fed to the 256 bits of the digest. The accumulator
  \<^verbatim>\<open>h\<close> is the bytes fed so far: \<^verbatim>\<open>h.update(b)\<close> appends, and \<^verbatim>\<open>h.hexdigest()\<close> is
  the digest of all of them, as 64 lower-case hexadecimal digits.
\<close>

type_synonym sha256 = "bytes \<Rightarrow> 256 word"

definition update :: "bytes \<Rightarrow> bytes \<Rightarrow> bytes" where
  "update h b = h @ b"

definition hexdigest :: "sha256 \<Rightarrow> bytes \<Rightarrow> string" where
  "hexdigest sha h =
     map (\<lambda>i. ''0123456789abcdef'' ! unat (take_bit 4 (drop_bit (4 * (63 - i)) (sha h))))
       [0 ..< 64]"

text \<open>\<^verbatim>\<open>s.encode()\<close>: one byte per character of the UTF-8 form.\<close>

definition encode :: "string \<Rightarrow> bytes" where
  "encode s = map of_char s"

text \<open>The loop of lines 24 to 28 of \<^verbatim>\<open>compute_data_hash\<close>.\<close>

fun hash_loop :: "(path \<times> node) list \<Rightarrow> bytes \<Rightarrow> bytes" where
  "hash_loop [] h = h"
| "hash_loop ((rel, Dir) # fs) h = hash_loop fs h"
| "hash_loop ((rel, File b) # fs) h =
     hash_loop fs (update (update h (encode (str_path rel))) b)"

definition compute_data_hash :: "sha256 \<Rightarrow> world \<Rightarrow> string" where
  "compute_data_hash sha w =
     (case data_dir w of
        None \<Rightarrow> []
      | Some d \<Rightarrow> hexdigest sha (hash_loop (sorted_paths (rglob d)) []))"

text \<open>
  \<^verbatim>\<open>s.strip()\<close>: the white space of ASCII (tab, line feed, vertical tab, form feed,
  carriage return, the four separators \<^verbatim>\<open>0x1c\<close> to \<^verbatim>\<open>0x1f\<close>, space) is dropped at both
  ends.
\<close>

definition is_space :: "char \<Rightarrow> bool" where
  "is_space c =
     (c \<in> set [CHR 0x09, CHR 0x0A, CHR 0x0B, CHR 0x0C, CHR 0x0D,
               CHR 0x1C, CHR 0x1D, CHR 0x1E, CHR 0x1F, CHR 0x20])"

definition strip :: "string \<Rightarrow> string" where
  "strip s = rev (dropWhile is_space (rev (dropWhile is_space s)))"

text \<open>
  \<^verbatim>\<open>subprocess.run(cmd, check=...)\<close>: the external command is the parameter \<open>run\<close>,
  from the command line to the exit status; the call is recorded in \<open>uploads\<close>.
\<close>

definition subprocess_run ::
    "(string list \<Rightarrow> int) \<Rightarrow> string list \<Rightarrow> bool \<Rightarrow> world \<Rightarrow> error + (int \<times> world)" where
  "subprocess_run run cmd check w =
     (let returncode = run cmd; w' = w\<lparr>uploads := uploads w @ [cmd]\<rparr>
      in if check \<and> returncode \<noteq> 0 then Inl CalledProcessError else Inr (returncode, w'))"

text \<open>
  The command of lines 49 to 58: \<open>exe\<close> is \<^verbatim>\<open>sys.executable\<close> and \<open>env\<close> is
  \<^verbatim>\<open>env.subst\<close> of the build environment.
\<close>

definition upload_cmd :: "string \<Rightarrow> (string \<Rightarrow> string) \<Rightarrow> string list" where
  "upload_cmd exe env =
     [exe, ''-m'', ''platformio'', ''run'', ''--target'', ''uploadfs'',
      ''--environment'', env ''$PIOENV'']"

text \<open>Lines 39 to 41: the fingerprint read from the state file.\<close>

definition previous_hash :: "world \<Rightarrow> string" where
  "previous_hash w = (case hash_file w of None \<Rightarrow> [] | Some txt \<Rightarrow> strip txt)"

definition upload_fs_if_changed ::
    "sha256 \<Rightarrow> (string list \<Rightarrow> int) \<Rightarrow> string \<Rightarrow> (string \<Rightarrow> string) \<Rightarrow> world \<Rightarrow> error + world" where
  "upload_fs_if_changed sha run exe env w =
     (if \<not> data_present w then
        Inr (w\<lparr>stdout := stdout w @
          [''LittleFS: No data/ directory, skipping filesystem upload'']\<rparr>)
      else
        let current_hash = compute_data_hash sha w in
        if current_hash = previous_hash w then
          Inr (w\<lparr>stdout := stdout w @
            [''LittleFS: Web assets unchanged '' @ em_dash @
             '' skipping filesystem upload'']\<rparr>)
        else
          let w1 = w\<lparr>stdout := stdout w @
            [''LittleFS: Web assets changed '' @ em_dash @
             '' uploading filesystem image...'']\<rparr>
          in bind_err (subprocess_run run (upload_cmd exe env) False w1) (\<lambda>(returncode, w2).
             if returncode = 0 then
               Inr (w2\<lparr>hash_file := Some current_hash,
                       stdout := stdout w2 @ [''LittleFS: Filesystem uploaded successfully'']\<rparr>)
             else
               Inr (w2\<lparr>stderr := stderr w2 @ [''LittleFS: Filesystem upload FAILED!'']\<rparr>)))"


section \<open>Inputs of the examples\<close>

text \<open>
  The theorems below hold for every codec \<open>gz\<close>, every digest \<open>sha\<close> and every outcome
  of the external command. Their examples need closed terms: a codec that stores the
  bytes behind the two magic bytes of a gzip stream (with its inverse), a digest that
  only counts the bytes, the two outcomes of the upload, and the build environment
  \<^verbatim>\<open>esp32\<close>.
\<close>

definition ex_gz :: gzip where
  "ex_gz level mtime raw = 0x1F # 0x8B # raw"

definition ex_gunzip :: "bytes \<Rightarrow> bytes" where
  "ex_gunzip c = drop 2 c"

definition ex_sha :: sha256 where
  "ex_sha h = of_nat (length h)"

definition run_ok :: "string list \<Rightarrow> int" where
  "run_ok cmd = 0"

definition run_failed :: "string list \<Rightarrow> int" where
  "run_failed cmd = 1"

definition ex_env :: "string \<Rightarrow> string" where
  "ex_env s = ''esp32''"

text \<open>A project whose \<^verbatim>\<open>data/\<close> holds one file and that has never uploaded.\<close>

definition w_first :: world where
  "w_first =
     \<lparr>build_dir = None, data_dir = Some [([''x.mp3''], File [1, 2])], hash_file = None,
      stdout = [], stderr = [], uploads = []\<rparr>"

text \<open>The same project after an upload of this very content.\<close>

definition w_same :: world where
  "w_same = w_first\<lparr>hash_file := Some (compute_data_hash ex_sha w_first)\<rparr>"

text \<open>A project with nothing to prepare and nothing prepared before.\<close>

definition w_bare :: world where
  "w_bare =
     \<lparr>build_dir = Some [([''prepare_littlefs.py''], File [])], data_dir = None,
      hash_file = None, stdout = [], stderr = [], uploads = []\<rparr>"

text \<open>A source tree for the eligibility test: one style sheet and one source map.\<close>

definition src_names :: "(path \<times> node) list" where
  "src_names = [([''STYLE.CSS''], File [7]), ([''app.js.map''], File [8])]"

text \<open>
  Two pairs of \<^verbatim>\<open>data/\<close> trees for the fingerprint. In the first pair the file
  \<^verbatim>\<open>ab\<close> is renamed to \<^verbatim>\<open>ba\<close>; in the second the five bytes of \<^verbatim>\<open>a.mp3\<close> (the text
  \<^verbatim>\<open>b.mp3\<close>) are cut off and an empty file \<^verbatim>\<open>b.mp3\<close> is added.
\<close>

definition tree_ab :: tree where
  "tree_ab = [([''ab''], File []), ([''aba''], File [])]"

definition tree_ba :: tree where
  "tree_ba = [([''aba''], File []), ([''ba''], File [])]"

definition tree_one :: tree where
  "tree_one = [([''a.mp3''], File (encode ''b.mp3''))]"

definition tree_two :: tree where
  "tree_two = [([''a.mp3''], File []), ([''b.mp3''], File [])]"

text \<open>The second tree in \<^verbatim>\<open>data/\<close>, as listed in one order and in the other.\<close>

definition w_two :: world where
  "w_two = w_first\<lparr>data_dir := Some tree_two\<rparr>"

definition w_two_rev :: world where
  "w_two_rev = w_first\<lparr>data_dir := Some (rev tree_two)\<rparr>"

text \<open>
  A project with two source files and output left from an earlier build, and the same
  project as the filesystem may list it in another order over an empty \<^verbatim>\<open>data/\<close>.
\<close>

definition w_src :: world where
  "w_src =
     \<lparr>build_dir = Some [([''x.nogz.mp3''], File [1, 2]), ([''x.js''], File [3])],
      data_dir = Some [([''old.css.gz''], File [9])], hash_file = None,
      stdout = [], stderr = [], uploads = []\<rparr>"

definition w_src_rev :: world where
  "w_src_rev =
     \<lparr>build_dir = Some [([''x.js''], File [3]), ([''x.nogz.mp3''], File [1, 2])],
      data_dir = Some [], hash_file = None,
      stdout = [], stderr = [], uploads = []\<rparr>"




section \<open>Strings: facts about the library functions\<close>

lemma str_contains_iff: "str_contains sub s \<longleftrightarrow> (\<exists>u v. s = u @ sub @ v)"
proof (induction s)
  case Nil
  then show ?case by auto
next
  case (Cons c cs)
  show ?case
  proof
    assume "str_contains sub (c # cs)"
    then consider "prefix sub (c # cs)" | "str_contains sub cs" by auto
    then show "\<exists>u v. c # cs = u @ sub @ v"
    proof cases
      case 1
      then obtain v where "c # cs = sub @ v" by (auto simp: prefix_def)
      then have "c # cs = [] @ sub @ v" by simp
      then show ?thesis by blast
    next
      case 2
      with Cons.IH obtain u v where "cs = u @ sub @ v" by auto
      then have "c # cs = (c # u) @ sub @ v" by simp
      then show ?thesis by blast
    qed
  next
    assume "\<exists>u v. c # cs = u @ sub @ v"
    then obtain u v where eq: "c # cs = u @ sub @ v" by auto
    show "str_contains sub (c # cs)"
    proof (cases u)
      case Nil
      with eq have "prefix sub (c # cs)" by (simp add: prefix_def)
      then show ?thesis by simp
    next
      case (Cons a u')
      with eq have "cs = u' @ sub @ v" by simp
      with Cons.IH have "str_contains sub cs" by blast
      then show ?thesis by simp
    qed
  qed
qed

lemma str_contains_append: "str_contains sub (u @ sub @ v)"
  by (auto simp: str_contains_iff)

lemma str_contains_prefix_mono:
  assumes "prefix sub' sub" "str_contains sub s"
  shows "str_contains sub' s"
proof -
  from assms obtain r u v where "sub = sub' @ r" "s = u @ sub @ v"
    by (auto simp: prefix_def str_contains_iff)
  then have "s = u @ sub' @ (r @ v)" by simp
  then show ?thesis unfolding str_contains_iff by blast
qed

lemma str_replace_absent:
  "\<not> str_contains old s \<Longrightarrow> str_replace old new s = s"
  by (induction s) auto

lemma str_replace_skip:
  "\<not> prefix old (c # cs) \<Longrightarrow> str_replace old new (c # cs) = c # str_replace old new cs"
  by simp

lemma str_replace_hit:
  "old \<noteq> [] \<Longrightarrow> str_replace old new (old @ v) = new @ str_replace old new v"
  by (cases old) simp_all

text \<open>
  A pattern whose first character does not occur again in it (as \<^verbatim>\<open>.nogz\<close>) cannot
  begin inside a text \<open>u\<close> and end in a continuation that is empty or starts with that
  character.
\<close>

lemma no_straddle:
  assumes d: "d \<notin> set os" and np: "\<not> prefix (d # os) u" and ne: "u \<noteq> []"
    and w: "w = [] \<or> hd w = d"
  shows "\<not> prefix (d # os) (u @ w)"
proof
  assume "prefix (d # os) (u @ w)"
  with np obtain us where old: "d # os = u @ us" and us: "prefix us w"
    by (auto simp: prefix_append)
  from np old have "us \<noteq> []" by auto
  with us w have "hd us = d" by (cases us; cases w) auto
  with \<open>us \<noteq> []\<close> have "d \<in> set us" by (cases us) auto
  moreover from old ne have "set us \<subseteq> set os" by (cases u) auto
  ultimately show False using d by blast
qed

lemma str_replace_first:
  assumes d: "d \<notin> set os" and u: "\<not> str_contains (d # os) u"
  shows "str_replace (d # os) new (u @ (d # os) @ v) = u @ new @ str_replace (d # os) new v"
  using u
proof (induction u)
  case Nil
  show ?case using str_replace_hit [of "d # os" new v] by simp
next
  case (Cons c cs)
  then have np: "\<not> prefix (d # os) (c # cs)" and rest: "\<not> str_contains (d # os) cs"
    by auto
  have "\<not> prefix (d # os) ((c # cs) @ ((d # os) @ v))"
    by (rule no_straddle [OF d np]) simp_all
  then have "\<not> prefix (d # os) (c # (cs @ (d # os) @ v))"
    by simp
  then have "str_replace (d # os) new (c # (cs @ (d # os) @ v)) =
      c # str_replace (d # os) new (cs @ (d # os) @ v)"
    by (rule str_replace_skip)
  with Cons.IH [OF rest] show ?case by simp
qed

lemma str_contains_keep:
  assumes d: "d \<notin> set os" and u: "\<not> str_contains (d # os) u"
    and w: "\<not> str_contains (d # os) w" and hw: "w = [] \<or> hd w = d"
  shows "\<not> str_contains (d # os) (u @ w)"
  using u
proof (induction u)
  case Nil
  with w show ?case by simp
next
  case (Cons c cs)
  then have np: "\<not> prefix (d # os) (c # cs)" and rest: "\<not> str_contains (d # os) cs"
    by auto
  have "\<not> prefix (d # os) ((c # cs) @ w)"
    by (rule no_straddle [OF d np _ hw]) simp
  with Cons.IH [OF rest] show ?case by simp
qed

lemma rfind_from_absent: "c \<notin> set xs \<Longrightarrow> rfind_from c xs i found = found"
  by (induction xs arbitrary: i) auto

lemma rfind_from_last:
  "c \<notin> set ys \<Longrightarrow> rfind_from c (xs @ c # ys) i found = int (i + length xs)"
  by (induction xs arbitrary: i found) (auto simp: rfind_from_absent)

lemma suffix_of_final:
  assumes "stem \<noteq> []" "ext \<noteq> []" "CHR ''.'' \<notin> set ext"
  shows "suffix_of (dir @ [stem @ ''.'' @ ext]) = ''.'' @ ext"
proof -
  have "rfind CHR ''.'' (stem @ CHR ''.'' # ext) = int (length stem)"
    using assms(3) by (simp add: rfind_def rfind_from_last)
  with assms(1,2) show ?thesis
    by (simp add: suffix_of_def name_def Let_def)
qed

section \<open>The fingerprint is 64 hexadecimal digits\<close>

lemma length_hexdigest: "length (hexdigest sha h) = 64"
  by (simp add: hexdigest_def)

lemma hex_digit_not_space:
  assumes "n < 16"
  shows "\<not> is_space (''0123456789abcdef'' ! n)"
proof -
  have all: "\<forall>c\<in>set ''0123456789abcdef''. \<not> is_space c"
    by (simp add: is_space_def)
  have "''0123456789abcdef'' ! n \<in> set ''0123456789abcdef''"
    by (rule nth_mem) (use assms in simp)
  with all show ?thesis by blast
qed

lemma nibble_less: "unat (take_bit 4 (x :: 256 word)) < 16"
proof -
  have "take_bit 4 (unat x) < 2 ^ 4"
    by (rule take_bit_nat_less_exp)
  then show ?thesis by (simp add: unsigned_take_bit_eq)
qed

lemma hexdigest_no_space: "c \<in> set (hexdigest sha h) \<Longrightarrow> \<not> is_space c"
  by (auto simp: hexdigest_def simp del: upt_Suc intro!: hex_digit_not_space nibble_less)

lemma strip_id:
  assumes "\<And>c. c \<in> set s \<Longrightarrow> \<not> is_space c"
  shows "strip s = s"
proof (cases "s = []")
  case True
  then show ?thesis by (simp add: strip_def)
next
  case False
  then have "\<not> is_space (hd s)" and "\<not> is_space (last s)"
    using assms by simp_all
  then have "dropWhile is_space s = s" and "dropWhile is_space (rev s) = rev s"
    using False by (simp_all add: dropWhile_eq_self_iff hd_rev)
  then show ?thesis by (simp add: strip_def)
qed

lemma strip_hexdigest: "strip (hexdigest sha h) = hexdigest sha h"
  by (rule strip_id) (rule hexdigest_no_space)

lemma compute_data_hash_nonempty:
  assumes "data_present w"
  shows "compute_data_hash sha w \<noteq> []"
proof -
  from assms obtain d where "data_dir w = Some d"
    by (auto simp: data_present_def split: option.splits)
  then have "length (compute_data_hash sha w) = 64"
    by (simp add: compute_data_hash_def length_hexdigest)
  then show ?thesis by auto
qed

lemma strip_compute_data_hash: "strip (compute_data_hash sha w) = compute_data_hash sha w"
proof (cases "data_dir w")
  case None
  then show ?thesis by (simp add: compute_data_hash_def strip_def)
next
  case (Some d)
  then show ?thesis by (simp add: compute_data_hash_def strip_hexdigest)
qed

section \<open>upload\_fs.py: when the upload runs\<close>

text \<open>
  C1 (the upload runs exactly on a change). On a \<^verbatim>\<open>data/\<close> directory that exists and is not empty, the
  hook always returns, and:
  \<^item> when the fingerprint read from the state file equals the fingerprint computed
    now, \<^verbatim>\<open>subprocess.run\<close> is not called;
  \<^item> when the two differ, it is called exactly once, with the upload command;
  \<^item> a state file that holds exactly the computed fingerprint reads as equal;
  \<^item> a missing state file reads as the empty string, which differs from every
    fingerprint, so the first run uploads.
\<close>

theorem upload_iff_changed:
  assumes present: "data_present w"
  shows "(previous_hash w = compute_data_hash sha w \<longrightarrow>
            (\<exists>w'. upload_fs_if_changed sha run exe env w = Inr w' \<and> uploads w' = uploads w))
       \<and> (previous_hash w \<noteq> compute_data_hash sha w \<longrightarrow>
            (\<exists>w'. upload_fs_if_changed sha run exe env w = Inr w' \<and>
                  uploads w' = uploads w @ [upload_cmd exe env]))
       \<and> (hash_file w = Some (compute_data_hash sha w) \<longrightarrow>
            previous_hash w = compute_data_hash sha w)
       \<and> (hash_file w = None \<longrightarrow> previous_hash w \<noteq> compute_data_hash sha w)"
proof (intro conjI impI)
  assume "previous_hash w = compute_data_hash sha w"
  with present
  show "\<exists>w'. upload_fs_if_changed sha run exe env w = Inr w' \<and> uploads w' = uploads w"
    by (simp add: upload_fs_if_changed_def)
next
  assume "previous_hash w \<noteq> compute_data_hash sha w"
  with present
  show "\<exists>w'. upload_fs_if_changed sha run exe env w = Inr w' \<and>
      uploads w' = uploads w @ [upload_cmd exe env]"
    by (auto simp: upload_fs_if_changed_def subprocess_run_def bind_err_def Let_def)
next
  assume "hash_file w = Some (compute_data_hash sha w)"
  then show "previous_hash w = compute_data_hash sha w"
    by (simp add: previous_hash_def strip_compute_data_hash)
next
  assume "hash_file w = None"
  then have "previous_hash w = []" by (simp add: previous_hash_def)
  with compute_data_hash_nonempty [OF present, of sha]
  show "previous_hash w \<noteq> compute_data_hash sha w" by simp
qed

text \<open>
  The first run of \<open>w_first\<close> (no state file) uploads once; the run of \<open>w_same\<close>,
  whose state file holds the fingerprint of its content, does not upload.
\<close>

theorem upload_iff_changed_witness:
  "data_present w_first \<and> hash_file w_first = None \<and>
   (\<exists>w'. upload_fs_if_changed ex_sha run_ok ''python'' ex_env w_first = Inr w' \<and>
         uploads w' = [upload_cmd ''python'' ex_env]) \<and>
   data_present w_same \<and> hash_file w_same = Some (compute_data_hash ex_sha w_same) \<and>
   (\<exists>w'. upload_fs_if_changed ex_sha run_ok ''python'' ex_env w_same = Inr w' \<and>
         uploads w' = [])"
proof -
  have p1: "data_present w_first" and p2: "data_present w_same"
    by (simp_all add: data_present_def w_same_def w_first_def rglob_def)
  have n1: "hash_file w_first = None" and u1: "uploads w_first = []"
    by (simp_all add: w_first_def)
  have s2: "hash_file w_same = Some (compute_data_hash ex_sha w_same)"
    and u2: "uploads w_same = []"
    by (simp_all add: w_same_def w_first_def compute_data_hash_def)
  from upload_iff_changed [OF p1, of ex_sha run_ok "''python''" ex_env] n1 u1
  have first: "\<exists>w'. upload_fs_if_changed ex_sha run_ok ''python'' ex_env w_first = Inr w' \<and>
      uploads w' = [upload_cmd ''python'' ex_env]"
    by simp
  from upload_iff_changed [OF p2, of ex_sha run_ok "''python''" ex_env] s2 u2
  have same: "\<exists>w'. upload_fs_if_changed ex_sha run_ok ''python'' ex_env w_same = Inr w' \<and>
      uploads w' = []"
    by simp
  from p1 n1 first p2 s2 same show ?thesis by blast
qed

text \<open>
  C2 (failure non-persistence). When the upload command exits with a nonzero status,
  the hook still returns a world and no exception (\<^verbatim>\<open>check=False\<close>), the state file is
  as before the run, and, whenever the upload was attempted, the failure line is on the
  error stream.
\<close>

theorem failure_non_persistence:
  assumes failed: "run (upload_cmd exe env) \<noteq> 0"
  shows "\<exists>w'. upload_fs_if_changed sha run exe env w = Inr w' \<and>
           hash_file w' = hash_file w \<and>
           (data_present w \<and> previous_hash w \<noteq> compute_data_hash sha w \<longrightarrow>
              uploads w' = uploads w @ [upload_cmd exe env] \<and>
              stderr w' = stderr w @ [''LittleFS: Filesystem upload FAILED!''])"
  using failed
  by (auto simp: upload_fs_if_changed_def subprocess_run_def bind_err_def Let_def)

theorem failure_non_persistence_witness:
  "run_failed (upload_cmd ''python'' ex_env) \<noteq> 0 \<and>
   data_present w_first \<and> previous_hash w_first \<noteq> compute_data_hash ex_sha w_first \<and>
   (\<exists>w'. upload_fs_if_changed ex_sha run_failed ''python'' ex_env w_first = Inr w' \<and>
         hash_file w' = None \<and>
         uploads w' = [upload_cmd ''python'' ex_env] \<and>
         stderr w' = [''LittleFS: Filesystem upload FAILED!''])"
proof -
  have f: "run_failed (upload_cmd ''python'' ex_env) \<noteq> 0"
    by (simp add: run_failed_def)
  have p: "data_present w_first"
    by (simp add: data_present_def w_first_def rglob_def)
  have "previous_hash w_first = []"
    by (simp add: previous_hash_def w_first_def)
  with compute_data_hash_nonempty [OF p, of ex_sha]
  have d: "previous_hash w_first \<noteq> compute_data_hash ex_sha w_first"
    by simp
  have fields: "hash_file w_first = None" "uploads w_first = []" "stderr w_first = []"
    by (simp_all add: w_first_def)
  from failure_non_persistence
    [where run = run_failed and exe = "''python''" and env = ex_env and sha = ex_sha
       and w = w_first, OF f] p d fields
  have "\<exists>w'. upload_fs_if_changed ex_sha run_failed ''python'' ex_env w_first = Inr w' \<and>
      hash_file w' = None \<and> uploads w' = [upload_cmd ''python'' ex_env] \<and>
      stderr w' = [''LittleFS: Filesystem upload FAILED!'']"
    by simp
  with f p d show ?thesis by blast
qed

section \<open>The Asset Preparer: the skip policy\<close>

text \<open>
  C7 (skip policy). When \<^verbatim>\<open>src/web/build\<close> is missing or holds no eligible file, the
  script returns without an error and without calling \<^verbatim>\<open>prepare\<close>: both directories
  and the state file are as before. When \<^verbatim>\<open>data/\<close> exists with content, the reuse is
  reported on standard output and nothing goes to the error stream; otherwise the two
  warning lines go to the error stream and nothing to standard output.
\<close>

theorem skip_policy:
  assumes "\<not> has_files w"
  shows "\<exists>w'. prepare_littlefs gz w = Inr w' \<and>
           data_dir w' = data_dir w \<and> build_dir w' = build_dir w \<and>
           hash_file w' = hash_file w \<and>
           (data_present w \<longrightarrow>
              stdout w' = stdout w @
                [''No minified files in src/web/build/ '' @ em_dash @
                 '' using existing data/ from repository.''] \<and>
              stderr w' = stderr w) \<and>
           (\<not> data_present w \<longrightarrow>
              stdout w' = stdout w \<and>
              stderr w' = stderr w @
                [''Warning: No minified files found and no pre-built data/ directory.'',
                 ''Install minification tools or restore data/ from the repository.''])"
  using assms by (simp add: prepare_littlefs_def)

text \<open>
  \<open>w_first\<close> has no \<^verbatim>\<open>src/web/build\<close> and a prepared \<^verbatim>\<open>data/\<close>, which is kept;
  \<open>w_bare\<close> has only the script in \<^verbatim>\<open>src/web/build\<close> and no \<^verbatim>\<open>data/\<close>, and gets the
  warning.
\<close>

theorem skip_policy_witness:
  "\<not> has_files w_first \<and> data_present w_first \<and>
   (\<exists>w'. prepare_littlefs ex_gz w_first = Inr w' \<and>
         data_dir w' = Some [([''x.mp3''], File [1, 2])] \<and>
         stdout w' = [''No minified files in src/web/build/ '' @ em_dash @
                      '' using existing data/ from repository.''] \<and>
         stderr w' = []) \<and>
   \<not> has_files w_bare \<and> \<not> data_present w_bare \<and>
   (\<exists>w'. prepare_littlefs ex_gz w_bare = Inr w' \<and>
         data_dir w' = None \<and> stdout w' = [] \<and>
         stderr w' =
           [''Warning: No minified files found and no pre-built data/ directory.'',
            ''Install minification tools or restore data/ from the repository.''])"
proof -
  have h1: "\<not> has_files w_first"
    by (simp add: has_files_def w_first_def)
  have p1: "data_present w_first"
    by (simp add: data_present_def w_first_def rglob_def)
  have h2: "\<not> has_files w_bare"
    by (simp add: has_files_def w_bare_def rglob_def eligible_def suffix_of_def name_def
        rfind_def lower_def lower_char_def SUPPORTED_EXTENSIONS_def)
  have p2: "\<not> data_present w_bare"
    by (simp add: data_present_def w_bare_def)
  have f1: "data_dir w_first = Some [([''x.mp3''], File [1, 2])]" "stdout w_first = []"
    "stderr w_first = []"
    by (simp_all add: w_first_def)
  have f2: "data_dir w_bare = None" "stdout w_bare = []" "stderr w_bare = []"
    by (simp_all add: w_bare_def)
  from skip_policy [OF h1, of ex_gz] p1 f1
  have a: "\<exists>w'. prepare_littlefs ex_gz w_first = Inr w' \<and>
      data_dir w' = Some [([''x.mp3''], File [1, 2])] \<and>
      stdout w' = [''No minified files in src/web/build/ '' @ em_dash @
                   '' using existing data/ from repository.''] \<and>
      stderr w' = []"
    by auto
  from skip_policy [OF h2, of ex_gz] p2 f2
  have b: "\<exists>w'. prepare_littlefs ex_gz w_bare = Inr w' \<and>
      data_dir w' = None \<and> stdout w' = [] \<and>
      stderr w' =
        [''Warning: No minified files found and no pre-built data/ directory.'',
         ''Install minification tools or restore data/ from the repository.'']"
    by auto
  from h1 p1 a h2 p2 b show ?thesis by blast
qed

section \<open>The Asset Preparer: which files are processed\<close>

lemmas classify_defs =
  eligible_def suffix_of_def name_def rfind_def lower_def lower_char_def
  SUPPORTED_EXTENSIONS_def is_nogz_def clean_name_def canonical_name_def

lemmas fs_defs =
  data_path_def node_at_def mkdir_parents_def write_bytes_def copy_def bind_err_def

lemma prepare_file_skip: "\<not> eligible f \<Longrightarrow> prepare_file gz f st = Inr st"
  by (cases "(gz, f, st)" rule: prepare_file.cases) (auto simp: eligible_def)

lemma prepare_file_count:
  assumes "prepare_file gz f (data, cnt) = Inr (data', cnt')"
  shows "cnt' = (if eligible f then cnt + 1 else cnt)"
proof (cases "eligible f")
  case False
  with assms show ?thesis by (simp add: prepare_file_skip)
next
  case True
  then obtain rel raw where f: "f = (rel, File raw)"
    by (cases f; cases "snd f") (auto simp: eligible_def)
  with True have "lower (suffix_of rel) \<in> SUPPORTED_EXTENSIONS"
    by (simp add: eligible_def)
  with assms f True show ?thesis
    by (auto simp: bind_err_def split: if_splits sum.splits)
qed

lemma prepare_loop_filter:
  "prepare_loop gz fs st = prepare_loop gz (filter eligible fs) st"
  by (induction fs arbitrary: st)
    (auto simp: prepare_file_skip bind_err_def split: sum.splits)

lemma prepare_loop_count:
  "prepare_loop gz fs (data, cnt) = Inr (data', cnt') \<Longrightarrow>
   cnt' = cnt + length (filter eligible fs)"
proof (induction fs arbitrary: data cnt)
  case Nil
  then show ?case by simp
next
  case (Cons f fs)
  from Cons.prems obtain d1 c1 where
    step: "prepare_file gz f (data, cnt) = Inr (d1, c1)" and
    rest: "prepare_loop gz fs (d1, c1) = Inr (data', cnt')"
    by (auto simp: bind_err_def split: sum.splits)
  from prepare_file_count [OF step] Cons.IH [OF rest] show ?case by simp
qed

text \<open>
  C9 (eligibility by the final extension). An entry of \<^verbatim>\<open>src/web/build\<close> is processed
  exactly when it is a file whose \<^verbatim>\<open>Path.suffix\<close>, lowercased, is one of the five
  supported extensions:
  \<^item> the loop runs as if the entries that fail the test were not there;
  \<^item> a run that returns has counted exactly the entries that pass it;
  \<^item> one round of the loop leaves the output tree and the counter as they were
    exactly for the entries that fail it;
  \<^item> the suffix is what follows the last dot of the file name, whatever precedes it;
  \<^item> \<^verbatim>\<open>STYLE.CSS\<close> passes, \<^verbatim>\<open>app.js.map\<close> does not.
\<close>

theorem eligibility_by_final_extension:
  "prepare_loop gz fs st = prepare_loop gz (filter eligible fs) st
   \<and> (prepare_loop gz fs (data, cnt) = Inr (data_out, cnt_out) \<longrightarrow>
        cnt_out = cnt + length (filter eligible fs))
   \<and> (eligible f \<longleftrightarrow> prepare_file gz f (data, cnt) \<noteq> Inr (data, cnt))
   \<and> (eligible (rel, n) \<longleftrightarrow>
        is_file n \<and> lower (suffix_of rel) \<in> {''.html'', ''.css'', ''.js'', ''.svg'', ''.mp3''})
   \<and> (stem \<noteq> [] \<and> ext \<noteq> [] \<and> CHR ''.'' \<notin> set ext \<longrightarrow>
        suffix_of (dir @ [stem @ ''.'' @ ext]) = ''.'' @ ext)
   \<and> eligible ([''STYLE.CSS''], File raw)
   \<and> \<not> eligible ([''app.js.map''], File raw)"
proof (intro conjI impI)
  show "prepare_loop gz fs st = prepare_loop gz (filter eligible fs) st"
    by (rule prepare_loop_filter)
  show "cnt_out = cnt + length (filter eligible fs)"
    if "prepare_loop gz fs (data, cnt) = Inr (data_out, cnt_out)"
    using that by (rule prepare_loop_count)
  show "eligible f \<longleftrightarrow> prepare_file gz f (data, cnt) \<noteq> Inr (data, cnt)"
  proof
    assume e: "eligible f"
    show "prepare_file gz f (data, cnt) \<noteq> Inr (data, cnt)"
    proof
      assume "prepare_file gz f (data, cnt) = Inr (data, cnt)"
      from prepare_file_count [OF this] e show False by simp
    qed
  next
    assume "prepare_file gz f (data, cnt) \<noteq> Inr (data, cnt)"
    then show "eligible f" using prepare_file_skip by blast
  qed
  show "eligible (rel, n) \<longleftrightarrow>
      is_file n \<and> lower (suffix_of rel) \<in> {''.html'', ''.css'', ''.js'', ''.svg'', ''.mp3''}"
    by (simp add: eligible_def SUPPORTED_EXTENSIONS_def)
  show "suffix_of (dir @ [stem @ ''.'' @ ext]) = ''.'' @ ext"
    if "stem \<noteq> [] \<and> ext \<noteq> [] \<and> CHR ''.'' \<notin> set ext"
    using that suffix_of_final [of stem ext dir] by simp
  show "eligible ([''STYLE.CSS''], File raw)"
    by (simp add: classify_defs)
  show "\<not> eligible ([''app.js.map''], File raw)"
    by (simp add: classify_defs)
qed

text \<open>
  The tree \<open>src_names\<close> holds both files: only the style sheet is compressed and
  counted.
\<close>

theorem eligibility_by_final_extension_witness:
  "prepare_loop ex_gz src_names ([], 0) = Inr ([([''STYLE.CSS.gz''], File [0x1F, 0x8B, 7])], 1)
   \<and> length (filter eligible src_names) = 1
   \<and> eligible ([''STYLE.CSS''], File [7])
   \<and> \<not> eligible ([''app.js.map''], File [8])"
proof -
  have run: "prepare_loop ex_gz src_names ([], 0) =
      Inr ([([''STYLE.CSS.gz''], File [0x1F, 0x8B, 7])], 1)"
    by (simp add: src_names_def classify_defs fs_defs ex_gz_def)
  note inst = eligibility_by_final_extension
    [where gz = ex_gz and fs = src_names and data = "[]" and cnt = 0
       and data_out = "[([''STYLE.CSS.gz''], File [0x1F, 0x8B, 7])]" and cnt_out = 1]
  from inst run have "(1 :: nat) = 0 + length (filter eligible src_names)"
    by blast
  moreover from inst [where raw = "[7]"] have "eligible ([''STYLE.CSS''], File [7])"
    by blast
  moreover from inst [where raw = "[8]"] have "\<not> eligible ([''app.js.map''], File [8])"
    by blast
  ultimately show ?thesis using run by simp
qed

section \<open>The Asset Preparer: one file\<close>

lemma str_contains_single: "str_contains [c] s \<longleftrightarrow> c \<in> set s"
  by (induction s) auto

lemma str_replace_char_absent: "c \<notin> set s \<Longrightarrow> str_replace [c] new s = s"
  by (rule str_replace_absent) (simp add: str_contains_single)

lemma split_on_absent: "sep \<notin> set s \<Longrightarrow> split_on sep s = [s]"
  by (induction s) auto

lemma data_path_single:
  assumes "CHR ''/'' \<notin> set s" "s \<noteq> []" "s \<noteq> ''.''" "s \<noteq> ''..''"
  shows "data_path s = Inr [s]"
proof -
  from assms(1,2) have "\<not> prefix ''/'' s" by (cases s) auto
  with assms show ?thesis by (simp add: data_path_def split_on_absent)
qed

lemma clean_name_marked:
  assumes "CHR 0x5C \<notin> set x" "\<not> str_contains ''.nogz'' x" "CHR 0x5C \<notin> set e"
    "\<not> str_contains ''.nogz'' e"
  shows "clean_name [x @ ''.nogz'' @ e] = x @ e"
proof -
  have "str_replace [CHR 0x5C] ''/'' (x @ ''.nogz'' @ e) = x @ ''.nogz'' @ e"
    using assms(1,3) by (intro str_replace_char_absent) simp
  moreover have "str_replace ''.nogz'' [] (x @ ''.nogz'' @ e) = x @ [] @ str_replace ''.nogz'' [] e"
    using assms(2) by (intro str_replace_first) simp_all
  moreover have "str_replace ''.nogz'' [] e = e"
    using assms(4) by (rule str_replace_absent)
  ultimately show ?thesis by (simp add: clean_name_def)
qed

lemma clean_name_plain:
  assumes "CHR 0x5C \<notin> set x" "\<not> str_contains ''.nogz'' x"
  shows "clean_name [x] = x"
  using assms by (simp add: clean_name_def str_replace_char_absent str_replace_absent)

text \<open>
  C5 (marker semantics). Let \<open>x\<close> be a file name stem: not empty, without \<^verbatim>\<open>/\<close>,
  without a backslash and without \<^verbatim>\<open>.nogz\<close> in it. On an output tree that has no
  directory at the two targets, and with a codec whose \<^verbatim>\<open>gunzip\<close> undoes
  \<^verbatim>\<open>gzip.compress(raw, 9, mtime=0)\<close>:
  \<^item> the source file \<^verbatim>\<open>x.nogz.mp3\<close> is written to \<^verbatim>\<open>x.mp3\<close> with the source bytes;
  \<^item> the source file \<^verbatim>\<open>x.js\<close> is written to \<^verbatim>\<open>x.js.gz\<close> with bytes that decompress
    to the source bytes.
  Either file adds one to the counter and changes nothing else in the tree.
\<close>

theorem marker_semantics:
  assumes stem: "x \<noteq> []" "CHR ''/'' \<notin> set x" "CHR 0x5C \<notin> set x"
      "\<not> str_contains ''.nogz'' x"
    and free: "node_at data [x @ ''.mp3''] \<noteq> Some Dir" "node_at data [x @ ''.js.gz''] \<noteq> Some Dir"
    and codec: "\<And>raw. gunzip (gz 9 0 raw) = raw"
  shows "prepare_file gz ([x @ ''.nogz.mp3''], File raw) (data, cnt) =
           Inr (AList.update [x @ ''.mp3''] (File raw) data, cnt + 1)
       \<and> (\<exists>c. prepare_file gz ([x @ ''.js''], File raw) (data, cnt) =
                 Inr (AList.update [x @ ''.js.gz''] (File c) data, cnt + 1)
               \<and> gunzip c = raw)"
proof
  have ext: "lower (suffix_of [x @ ''.nogz.mp3'']) \<in> SUPPORTED_EXTENSIONS"
    using suffix_of_final [of "x @ ''.nogz''" "''mp3''" "[]"]
    by (simp add: lower_def lower_char_def SUPPORTED_EXTENSIONS_def)
  have marked: "is_nogz (name [x @ ''.nogz.mp3''])"
    using str_contains_append [of "''.nogz.''" x "''mp3''"] by (simp add: is_nogz_def name_def)
  have clean: "clean_name [x @ ''.nogz.mp3''] = x @ ''.mp3''"
    using clean_name_marked [of x "''.mp3''"] stem by simp
  have out: "data_path (x @ ''.mp3'') = Inr [x @ ''.mp3'']"
    using stem by (intro data_path_single) auto
  show "prepare_file gz ([x @ ''.nogz.mp3''], File raw) (data, cnt) =
      Inr (AList.update [x @ ''.mp3''] (File raw) data, cnt + 1)"
    using ext marked clean out free(1)
    by (auto simp: bind_err_def mkdir_parents_def copy_def write_bytes_def Let_def
        split: option.splits node.splits)
next
  have ext: "lower (suffix_of [x @ ''.js'']) \<in> SUPPORTED_EXTENSIONS"
    using suffix_of_final [of x "''js''" "[]"] stem(1)
    by (simp add: lower_def lower_char_def SUPPORTED_EXTENSIONS_def)
  have "\<not> str_contains ''.nogz'' (x @ ''.js'')"
    using stem(4) by (intro str_contains_keep) simp_all
  then have plain: "\<not> str_contains ''.nogz'' (x @ ''.js'')"
    and unmarked: "\<not> is_nogz (name [x @ ''.js''])"
    using str_contains_prefix_mono [of "''.nogz''" "''.nogz.''" "x @ ''.js''"]
    by (auto simp: is_nogz_def name_def)
  have clean: "clean_name [x @ ''.js''] = x @ ''.js''"
    using clean_name_plain [of "x @ ''.js''"] stem(3) plain by simp
  have out: "data_path (x @ ''.js.gz'') = Inr [x @ ''.js.gz'']"
    using stem by (intro data_path_single) auto
  have "prepare_file gz ([x @ ''.js''], File raw) (data, cnt) =
      Inr (AList.update [x @ ''.js.gz''] (File (gz 9 0 raw)) data, cnt + 1)"
    using ext unmarked clean out free(2)
    by (auto simp: bind_err_def mkdir_parents_def write_bytes_def
        split: option.splits node.splits)
  with codec show "\<exists>c. prepare_file gz ([x @ ''.js''], File raw) (data, cnt) =
      Inr (AList.update [x @ ''.js.gz''] (File c) data, cnt + 1) \<and> gunzip c = raw"
    by blast
qed

text \<open>The stem \<^verbatim>\<open>x\<close> itself, on the empty output tree, with the codec of the examples.\<close>

theorem marker_semantics_witness:
  "prepare_file ex_gz ([''x.nogz.mp3''], File [1, 2]) ([], 0) = Inr ([([''x.mp3''], File [1, 2])], 1)
   \<and> (\<exists>c. prepare_file ex_gz ([''x.js''], File [3]) ([], 0) = Inr ([([''x.js.gz''], File c)], 1)
          \<and> ex_gunzip c = [3])"
proof -
  have stem: "''x'' \<noteq> []" "CHR ''/'' \<notin> set ''x''" "CHR 0x5C \<notin> set ''x''"
    "\<not> str_contains ''.nogz'' ''x''"
    by simp_all
  have free: "node_at [] [''x'' @ ''.mp3''] \<noteq> Some Dir" "node_at [] [''x'' @ ''.js.gz''] \<noteq> Some Dir"
    by (simp_all add: node_at_def)
  have codec: "\<And>raw. ex_gunzip (ex_gz 9 0 raw) = raw"
    by (simp add: ex_gunzip_def ex_gz_def)
  note inst = marker_semantics
    [where x = "''x''" and data = "[]" and gz = ex_gz and gunzip = ex_gunzip and cnt = 0,
     OF stem free codec]
  from inst [of "[1, 2]"]
  have a: "prepare_file ex_gz ([''x.nogz.mp3''], File [1, 2]) ([], 0) =
      Inr ([([''x.mp3''], File [1, 2])], 1)"
    by simp
  from inst [of "[3]"]
  have b: "\<exists>c. prepare_file ex_gz ([''x.js''], File [3]) ([], 0) = Inr ([([''x.js.gz''], File c)], 1)
      \<and> ex_gunzip c = [3]"
    by simp
  from a b show ?thesis by blast
qed

lemma map_of_snoc_dir:
  "map_of t d = None \<Longrightarrow> map_of (t @ [(d, Dir)]) q = (if q = d then Some Dir else map_of t q)"
  by (simp add: map_add_def split: option.splits)

lemma mkdirs_map_of:
  assumes "mkdirs pre rest t = Inr t'"
  shows "map_of t' q = map_of t q \<or>
         (map_of t q = None \<and> map_of t' q = Some Dir \<and>
          (\<exists>k. 0 < k \<and> k \<le> length rest \<and> q = pre @ take k rest))"
  using assms
proof (induction rest arbitrary: pre t)
  case Nil
  then show ?case by simp
next
  case (Cons c cs)
  let ?d = "pre @ [c]"
  have at: "node_at t ?d = map_of t ?d" by (simp add: node_at_def)
  show ?case
  proof (cases "map_of t ?d")
    case None
    with Cons.prems at have run: "mkdirs ?d cs (t @ [(?d, Dir)]) = Inr t'" by simp
    note new = map_of_snoc_dir [OF None, of q]
    from Cons.IH [OF run] consider
      (same) "map_of t' q = map_of (t @ [(?d, Dir)]) q" |
      (made) k where "map_of (t @ [(?d, Dir)]) q = None" "map_of t' q = Some Dir"
        "0 < k" "k \<le> length cs" "q = ?d @ take k cs"
      by blast
    then show ?thesis
    proof cases
      case same
      show ?thesis
      proof (cases "q = ?d")
        case True
        with same new None have "map_of t q = None" "map_of t' q = Some Dir" by simp_all
        moreover from True have "q = pre @ take 1 (c # cs)" by simp
        ultimately show ?thesis by (intro disjI2 conjI exI [of _ 1]) simp_all
      next
        case False
        with same new show ?thesis by simp
      qed
    next
      case made
      from made(1) new have "map_of t q = None" by (simp split: if_splits)
      moreover from made(5) have "q = pre @ take (Suc k) (c # cs)" by simp
      ultimately show ?thesis using made(2,4)
        by (intro disjI2 conjI exI [of _ "Suc k"]) simp_all
    qed
  next
    case (Some n)
    with Cons.prems at obtain run: "mkdirs ?d cs t = Inr t'"
      by (cases n) simp_all
    from Cons.IH [OF run] show ?thesis
    proof
      assume "map_of t' q = map_of t q"
      then show ?thesis by simp
    next
      assume "map_of t q = None \<and> map_of t' q = Some Dir \<and>
        (\<exists>k. 0 < k \<and> k \<le> length cs \<and> q = ?d @ take k cs)"
      then obtain k where k: "map_of t q = None" "map_of t' q = Some Dir"
        "k \<le> length cs" "q = ?d @ take k cs"
        by blast
      from k(4) have "q = pre @ take (Suc k) (c # cs)" by simp
      with k(1-3) show ?thesis
        by (intro disjI2 conjI exI [of _ "Suc k"]) simp_all
    qed
  qed
qed

lemma mkdir_parents_files:
  assumes "mkdir_parents d t = Inr t'"
  shows "map_of t' q = Some (File b) \<longleftrightarrow> map_of t q = Some (File b)"
  using mkdirs_map_of [of "[]" d t t' q] assms by (auto simp: mkdir_parents_def)

lemma mkdir_parents_target:
  assumes "mkdir_parents (butlast out) t = Inr t'"
  shows "node_at t' out = node_at t out"
proof (cases "out = []")
  case True
  then show ?thesis by (simp add: node_at_def)
next
  case False
  from mkdirs_map_of [of "[]" "butlast out" t t' out] assms
  have "map_of t' out = map_of t out \<or> (\<exists>k. out = take k (butlast out))"
    by (auto simp: mkdir_parents_def)
  moreover have "out \<noteq> take k (butlast out)" for k
  proof
    assume "out = take k (butlast out)"
    then have "length out = length (take k (butlast out))" by simp
    with False show False by (cases out rule: rev_cases) auto
  qed
  ultimately show ?thesis using False by (simp add: node_at_def)
qed

lemma write_bytes_result:
  assumes "write_bytes dst b t = Inr t'"
  shows "map_of t' = (map_of t)(dst \<mapsto> File b)" and "node_at t dst \<noteq> Some Dir"
  using assms
  by (auto simp: write_bytes_def update_conv' split: option.splits node.splits)

text \<open>What one round of the loop does for an eligible file, when it does not raise.\<close>

lemma prepare_file_writes:
  assumes run: "prepare_file gz (rel, File raw) (data, cnt) = Inr (data', cnt')"
    and el: "eligible (rel, File raw)"
  shows "\<exists>out dst.
      data_path (canonical_name rel) = Inr out \<and>
      dst = (if is_nogz (name rel) \<and> node_at data out = Some Dir then out @ [name rel] else out) \<and>
      map_of data' dst = Some (File (if is_nogz (name rel) then raw else gz 9 0 raw)) \<and>
      (\<forall>q b. q \<noteq> dst \<longrightarrow> (map_of data' q = Some (File b) \<longleftrightarrow> map_of data q = Some (File b))) \<and>
      cnt' = cnt + 1"
proof -
  from el have ext: "lower (suffix_of rel) \<in> SUPPORTED_EXTENSIONS"
    by (simp add: eligible_def)
  show ?thesis
  proof (cases "is_nogz (name rel)")
    case True
    with run ext obtain out data1 where
      out: "data_path (clean_name rel) = Inr out" and
      mk: "mkdir_parents (butlast out) data = Inr data1" and
      cp: "copy (name rel) raw out data1 = Inr data'" and
      c: "cnt' = cnt + 1"
      by (auto simp: bind_err_def split: sum.splits)
    define dst where "dst = (if node_at data out = Some Dir then out @ [name rel] else out)"
    from mkdir_parents_target [OF mk] cp
    have wr: "write_bytes dst raw data1 = Inr data'"
      by (simp add: copy_def dst_def Let_def)
    note w = write_bytes_result [OF wr]
    have "map_of data' dst = Some (File raw)" using w(1) by simp
    moreover have "map_of data' q = Some (File b) \<longleftrightarrow> map_of data q = Some (File b)"
      if "q \<noteq> dst" for q b
      using that w(1) mkdir_parents_files [OF mk, of q b] by simp
    ultimately show ?thesis using out c True
      by (simp add: canonical_name_def dst_def)
  next
    case False
    with run ext obtain out data1 where
      out: "data_path (clean_name rel @ ''.gz'') = Inr out" and
      mk: "mkdir_parents (butlast out) data = Inr data1" and
      wr: "write_bytes out (gz 9 0 raw) data1 = Inr data'" and
      c: "cnt' = cnt + 1"
      by (auto simp: bind_err_def split: sum.splits)
    note w = write_bytes_result [OF wr]
    have "map_of data' out = Some (File (gz 9 0 raw))" using w(1) by simp
    moreover have "map_of data' q = Some (File b) \<longleftrightarrow> map_of data q = Some (File b)"
      if "q \<noteq> out" for q b
      using that w(1) mkdir_parents_files [OF mk, of q b] by simp
    ultimately show ?thesis using out c False
      by (simp add: canonical_name_def)
  qed
qed

lemma join_empty_sep: "join [] us = concat us"
  by (induction "[] :: string" us rule: join.induct) simp_all

lemma str_replace_join:
  assumes d: "d \<notin> set os" and us: "\<forall>u\<in>set us. \<not> str_contains (d # os) u"
  shows "str_replace (d # os) new (join (d # os) us) = join new us"
  using us
proof (induction "d # os" us rule: join.induct)
  case 1
  then show ?case by simp
next
  case (2 u)
  then show ?case by (simp add: str_replace_absent)
next
  case (3 u v vs)
  then have u: "\<not> str_contains (d # os) u" and rest: "\<forall>w\<in>set (v # vs). \<not> str_contains (d # os) w"
    by simp_all
  from str_replace_first [OF d u, of new "join (d # os) (v # vs)"] "3.hyps" [OF rest]
  show ?case by simp
qed

text \<open>
  C10 (what is stripped and what is copied).
  \<^item> \<^verbatim>\<open>clean_name\<close> is computed from the whole relative path: when the path, after the
    backslashes are turned, is cut at its occurrences of \<^verbatim>\<open>.nogz\<close> into pieces that are
    free of it, the result is the pieces put together, every occurrence gone, in the
    directory components as in the file name.
  \<^item> \<^verbatim>\<open>is_nogz\<close> holds exactly for a name that has \<^verbatim>\<open>.nogz.\<close> in it, with the dot
    after it.
  \<^item> A round of the loop that returns for an eligible file has written the source
    bytes when \<^verbatim>\<open>is_nogz\<close> holds of the file name, and the compressed bytes under
    \<^verbatim>\<open>clean_name + ".gz"\<close> when it does not.
  \<^item> \<^verbatim>\<open>a.nogzb.js\<close> is compressed and written to \<^verbatim>\<open>ab.js.gz\<close>; a file below the
    directory \<^verbatim>\<open>lib.nogz\<close> is written below \<^verbatim>\<open>lib\<close>; a marker in a directory name
    (\<^verbatim>\<open>v.nogz.d\<close>) does not make the file a copy.
\<close>

theorem nogz_stripping:
  "(str_replace [CHR 0x5C] ''/'' (str_path rel) = join ''.nogz'' us \<and>
      (\<forall>u\<in>set us. \<not> str_contains ''.nogz'' u) \<longrightarrow> clean_name rel = concat us)
   \<and> (is_nogz nm \<longleftrightarrow> (\<exists>u v. nm = u @ ''.nogz.'' @ v))
   \<and> (eligible (rel, File raw) \<and> prepare_file gz (rel, File raw) (data, cnt) = Inr (data_out, cnt_out) \<longrightarrow>
        (\<exists>out dst.
           data_path (if is_nogz (name rel) then clean_name rel else clean_name rel @ ''.gz'') = Inr out \<and>
           (dst = out \<or> dst = out @ [name rel]) \<and>
           map_of data_out dst = Some (File (if is_nogz (name rel) then raw else gz 9 0 raw))))
   \<and> \<not> is_nogz ''a.nogzb.js''
   \<and> prepare_file gz ([''a.nogzb.js''], File raw) ([], 0) =
        Inr ([([''ab.js.gz''], File (gz 9 0 raw))], 1)
   \<and> prepare_file gz ([''lib.nogz'', ''app.js''], File raw) ([], 0) =
        Inr ([([''lib''], Dir), ([''lib'', ''app.js.gz''], File (gz 9 0 raw))], 1)
   \<and> prepare_file gz ([''v.nogz.d'', ''app.js''], File raw) ([], 0) =
        Inr ([([''v.d''], Dir), ([''v.d'', ''app.js.gz''], File (gz 9 0 raw))], 1)"
proof (intro conjI impI)
  assume a: "str_replace [CHR 0x5C] ''/'' (str_path rel) = join ''.nogz'' us \<and>
      (\<forall>u\<in>set us. \<not> str_contains ''.nogz'' u)"
  then have "str_replace ''.nogz'' [] (join ''.nogz'' us) = join [] us"
    by (intro str_replace_join) simp_all
  with a show "clean_name rel = concat us"
    by (simp add: clean_name_def join_empty_sep)
next
  show "is_nogz nm \<longleftrightarrow> (\<exists>u v. nm = u @ ''.nogz.'' @ v)"
    by (simp add: is_nogz_def str_contains_iff)
next
  assume "eligible (rel, File raw) \<and>
      prepare_file gz (rel, File raw) (data, cnt) = Inr (data_out, cnt_out)"
  then have el: "eligible (rel, File raw)"
    and run: "prepare_file gz (rel, File raw) (data, cnt) = Inr (data_out, cnt_out)"
    by simp_all
  from prepare_file_writes [OF run el] obtain out dst where
    "data_path (canonical_name rel) = Inr out"
    "dst = (if is_nogz (name rel) \<and> node_at data out = Some Dir then out @ [name rel] else out)"
    "map_of data_out dst = Some (File (if is_nogz (name rel) then raw else gz 9 0 raw))"
    by blast
  then show "\<exists>out dst.
      data_path (if is_nogz (name rel) then clean_name rel else clean_name rel @ ''.gz'') = Inr out \<and>
      (dst = out \<or> dst = out @ [name rel]) \<and>
      map_of data_out dst = Some (File (if is_nogz (name rel) then raw else gz 9 0 raw))"
    unfolding canonical_name_def by (intro exI [of _ out] exI [of _ dst]) auto
next
  show "\<not> is_nogz ''a.nogzb.js''"
    by (simp add: is_nogz_def)
next
  show "prepare_file gz ([''a.nogzb.js''], File raw) ([], 0) =
      Inr ([([''ab.js.gz''], File (gz 9 0 raw))], 1)"
    by (simp add: classify_defs fs_defs)
next
  show "prepare_file gz ([''lib.nogz'', ''app.js''], File raw) ([], 0) =
      Inr ([([''lib''], Dir), ([''lib'', ''app.js.gz''], File (gz 9 0 raw))], 1)"
    by (simp add: classify_defs fs_defs)
next
  show "prepare_file gz ([''v.nogz.d'', ''app.js''], File raw) ([], 0) =
      Inr ([([''v.d''], Dir), ([''v.d'', ''app.js.gz''], File (gz 9 0 raw))], 1)"
    by (simp add: classify_defs fs_defs)
qed

text \<open>
  The path \<^verbatim>\<open>lib.nogz/x.nogz.mp3\<close>: cut at \<^verbatim>\<open>.nogz\<close> it is \<^verbatim>\<open>lib\<close>, \<^verbatim>\<open>/x\<close>, \<^verbatim>\<open>.mp3\<close>,
  and the file is copied to \<^verbatim>\<open>lib/x.mp3\<close>.
\<close>

theorem nogz_stripping_witness:
  "str_replace [CHR 0x5C] ''/'' (str_path [''lib.nogz'', ''x.nogz.mp3'']) =
     join ''.nogz'' [''lib'', ''/x'', ''.mp3'']
   \<and> clean_name [''lib.nogz'', ''x.nogz.mp3''] = ''lib/x.mp3''
   \<and> eligible ([''lib.nogz'', ''x.nogz.mp3''], File [5])
   \<and> prepare_file ex_gz ([''lib.nogz'', ''x.nogz.mp3''], File [5]) ([], 0) =
        Inr ([([''lib''], Dir), ([''lib'', ''x.mp3''], File [5])], 1)
   \<and> (\<exists>dst. map_of [([''lib''], Dir), ([''lib'', ''x.mp3''], File [5])] dst = Some (File [5]))"
proof -
  have j: "str_replace [CHR 0x5C] ''/'' (str_path [''lib.nogz'', ''x.nogz.mp3'']) =
      join ''.nogz'' [''lib'', ''/x'', ''.mp3'']"
    by simp
  have free: "\<forall>u\<in>set [''lib'', ''/x'', ''.mp3'']. \<not> str_contains ''.nogz'' u"
    by simp
  have el: "eligible ([''lib.nogz'', ''x.nogz.mp3''], File [5])"
    by (simp add: classify_defs)
  have run: "prepare_file ex_gz ([''lib.nogz'', ''x.nogz.mp3''], File [5]) ([], 0) =
      Inr ([([''lib''], Dir), ([''lib'', ''x.mp3''], File [5])], 1)"
    by (simp add: classify_defs fs_defs)
  have marked: "is_nogz (name [''lib.nogz'', ''x.nogz.mp3''])"
    by (simp add: is_nogz_def name_def)
  note inst = nogz_stripping
    [where rel = "[''lib.nogz'', ''x.nogz.mp3'']" and us = "[''lib'', ''/x'', ''.mp3'']"
       and raw = "[5]" and gz = ex_gz and data = "[]" and cnt = 0
       and data_out = "[([''lib''], Dir), ([''lib'', ''x.mp3''], File [5])]" and cnt_out = 1]
  from inst j free have c: "clean_name [''lib.nogz'', ''x.nogz.mp3''] = ''lib/x.mp3''"
    by simp
  from inst el run marked
  have "\<exists>dst. map_of [([''lib''], Dir), ([''lib'', ''x.mp3''], File [5])] dst = Some (File [5])"
    by auto
  with j c el run show ?thesis by blast
qed

section \<open>The Content Fingerprint\<close>

lemma hash_loop_concat:
  "hash_loop fs h = h @ concat [encode (str_path rel) @ b. (rel, File b) \<leftarrow> fs]"
  by (induction fs h rule: hash_loop.induct) (simp_all add: update_def)

lemma filter_same_key:
  assumes "distinct (map f xs)" "k \<in> set xs"
  shows "filter (\<lambda>x. f k = f x) xs = [k]"
  using assms
proof (induction xs)
  case Nil
  then show ?case by simp
next
  case (Cons a xs)
  show ?case
  proof (cases "k = a")
    case True
    from Cons.prems(1) have "\<forall>x\<in>set xs. f a \<noteq> f x" by auto
    then have "filter (\<lambda>x. f a = f x) xs = []" by (simp add: filter_empty_conv)
    with True show ?thesis by simp
  next
    case False
    with Cons.prems have k: "k \<in> set xs" and d: "distinct (map f xs)" by auto
    from k have "f k \<in> f ` set xs" by simp
    with Cons.prems(1) have "f k \<noteq> f a" by auto
    with Cons.IH [OF d k] show ?thesis by simp
  qed
qed

lemma distinct_keys_perm:
  assumes "distinct (map f xs)" "mset ys = mset xs"
  shows "distinct (map f ys)"
proof -
  from assms(2) have "mset (map f ys) = mset (map f xs)" by simp
  from mset_eq_imp_distinct_iff [OF this] assms(1) show ?thesis by simp
qed

lemma sort_key_perm:
  assumes d: "distinct (map f xs)" and p: "mset ys = mset xs"
  shows "sort_key f ys = sort_key f xs"
proof (rule properties_for_sort_key [of "sort_key f xs" ys f])
  show "mset (sort_key f xs) = mset ys" using p by simp
  show "sorted (map f (sort_key f xs))" by simp
  fix k assume "k \<in> set (sort_key f xs)"
  then have k: "k \<in> set xs" by simp
  from p have "set ys = set xs" by (rule mset_eq_setD)
  with k have k': "k \<in> set ys" by simp
  have ds: "distinct (map f (sort_key f xs))"
    by (rule distinct_keys_perm [OF d]) simp
  have d': "distinct (map f ys)"
    by (rule distinct_keys_perm [OF d p])
  from k have ks: "k \<in> set (sort_key f xs)" by simp
  have "filter (\<lambda>x. f k = f x) (sort_key f xs) = [k]"
    using ds ks by (rule filter_same_key [of f "sort_key f xs" k])
  moreover have "filter (\<lambda>x. f k = f x) ys = [k]"
    using d' k' by (rule filter_same_key [of f ys k])
  ultimately show "filter (\<lambda>x. f k = f x) (sort_key f xs) = filter (\<lambda>x. f k = f x) ys"
    by simp
qed

lemma sorted_paths_perm:
  assumes "distinct (map fst t)" "mset t' = mset t"
  shows "sorted_paths t' = sorted_paths t"
  unfolding sorted_paths_def using assms by (rule sort_key_perm)

text \<open>
  The order of \<^verbatim>\<open>Path\<close> goes component by component: \<^verbatim>\<open>a/b\<close> comes before \<^verbatim>\<open>a-b\<close>,
  although as a string \<^verbatim>\<open>a-b\<close> comes before \<^verbatim>\<open>a/b\<close>.
\<close>

lemma path_order_by_components:
  "sorted_paths [([''a-b''], Dir), ([''a'', ''b''], Dir)] = [([''a'', ''b''], Dir), ([''a-b''], Dir)]
   \<and> str_path [''a-b''] < str_path [''a'', ''b'']"
  by (simp add: sorted_paths_def)

text \<open>
  C4 (determinism of the fingerprint). Take a \<^verbatim>\<open>data/\<close> directory whose entries have
  distinct paths, listed by the filesystem in any two orders \<open>d\<close> and \<open>d'\<close>. Then
  \<^item> both listings give the same fingerprint, whatever else differs in the world;
  \<^item> the fingerprint is the digest of one stream of bytes: for each file, in the
    sorted order of the listing, its relative path and then its bytes (directories
    add nothing);
  \<^item> the sorted listing is ascending in the order of \<^verbatim>\<open>Path\<close>, which is lexicographic
    on the components, and has the same entries as the directory.
\<close>

theorem fingerprint_determinism:
  assumes "data_dir w = Some d" and "data_dir w' = Some d'"
    and "distinct (map fst d)" and "mset d' = mset d"
  shows "compute_data_hash sha w' = compute_data_hash sha w
       \<and> compute_data_hash sha w =
           hexdigest sha (concat [encode (str_path rel) @ b. (rel, File b) \<leftarrow> sorted_paths d])
       \<and> sorted (map fst (sorted_paths d))
       \<and> mset (sorted_paths d) = mset d"
proof (intro conjI)
  have "sorted_paths d' = sorted_paths d"
    using assms(3,4) by (rule sorted_paths_perm)
  with assms(1,2) show "compute_data_hash sha w' = compute_data_hash sha w"
    by (simp add: compute_data_hash_def rglob_def)
  from assms(1) show "compute_data_hash sha w =
      hexdigest sha (concat [encode (str_path rel) @ b. (rel, File b) \<leftarrow> sorted_paths d])"
    by (simp add: compute_data_hash_def rglob_def hash_loop_concat)
  show "sorted (map fst (sorted_paths d))" by (simp add: sorted_paths_def)
  show "mset (sorted_paths d) = mset d" by (simp add: sorted_paths_def)
qed

text \<open>
  The tree of \<open>w_two\<close> listed in reverse has the same fingerprint: the digest of
  \<^verbatim>\<open>a.mp3\<close> then \<^verbatim>\<open>b.mp3\<close> (both files are empty).
\<close>

theorem fingerprint_determinism_witness:
  "data_dir w_two = Some tree_two \<and> data_dir w_two_rev = Some (rev tree_two)
   \<and> distinct (map fst tree_two) \<and> mset (rev tree_two) = mset tree_two
   \<and> rev tree_two \<noteq> tree_two
   \<and> compute_data_hash ex_sha w_two_rev = compute_data_hash ex_sha w_two
   \<and> compute_data_hash ex_sha w_two = hexdigest ex_sha (encode ''a.mp3'' @ encode ''b.mp3'')"
proof -
  have a: "data_dir w_two = Some tree_two" and b: "data_dir w_two_rev = Some (rev tree_two)"
    by (simp_all add: w_two_def w_two_rev_def)
  have c: "distinct (map fst tree_two)" and n: "rev tree_two \<noteq> tree_two"
    by (simp_all add: tree_two_def)
  have p: "mset (rev tree_two) = mset tree_two" by simp
  have s: "sorted_paths tree_two = tree_two"
    by (simp add: sorted_paths_def tree_two_def)
  note inst = fingerprint_determinism [OF a b c p, of ex_sha]
  from inst have 1: "compute_data_hash ex_sha w_two_rev = compute_data_hash ex_sha w_two"
    by (rule conjunct1)
  from inst have "compute_data_hash ex_sha w_two =
      hexdigest ex_sha (concat [encode (str_path rel) @ b. (rel, File b) \<leftarrow> sorted_paths tree_two])"
    by blast
  then have 2: "compute_data_hash ex_sha w_two =
      hexdigest ex_sha (encode ''a.mp3'' @ encode ''b.mp3'')"
    unfolding s by (simp add: tree_two_def)
  from a b c p n 1 2 show ?thesis by blast
qed

text \<open>
  C3 (sensitivity of the fingerprint), evaluated where it fails. The stream has no
  mark between a path and the bytes or between one file and the next, so different
  trees can give the same stream, and then the same fingerprint for every digest
  function: \<open>tree_ab\<close> and \<open>tree_ba\<close> differ by the renaming of one file,
  \<open>tree_one\<close> and \<open>tree_two\<close> by the bytes of one file and the presence of another.
\<close>

theorem fingerprint_collisions:
  "tree_ab \<noteq> tree_ba \<and> set tree_ab \<noteq> set tree_ba
   \<and> compute_data_hash sha (w\<lparr>data_dir := Some tree_ab\<rparr>) =
       compute_data_hash sha (w\<lparr>data_dir := Some tree_ba\<rparr>)
   \<and> set tree_one \<noteq> set tree_two
   \<and> compute_data_hash sha (w\<lparr>data_dir := Some tree_one\<rparr>) =
       compute_data_hash sha (w\<lparr>data_dir := Some tree_two\<rparr>)"
proof -
  have 1: "hash_loop (sorted_paths tree_ab) [] = hash_loop (sorted_paths tree_ba) []"
    by (simp add: tree_ab_def tree_ba_def sorted_paths_def update_def encode_def)
  have 2: "hash_loop (sorted_paths tree_one) [] = hash_loop (sorted_paths tree_two) []"
    by (simp add: tree_one_def tree_two_def sorted_paths_def update_def encode_def)
  have 3: "tree_ab \<noteq> tree_ba"
    by (simp add: tree_ab_def tree_ba_def)
  have "([''ab''], File []) \<in> set tree_ab" "([''ab''], File []) \<notin> set tree_ba"
    by (simp_all add: tree_ab_def tree_ba_def)
  then have 4: "set tree_ab \<noteq> set tree_ba" by blast
  have "([''b.mp3''], File []) \<notin> set tree_one" "([''b.mp3''], File []) \<in> set tree_two"
    by (simp_all add: tree_one_def tree_two_def)
  then have 5: "set tree_one \<noteq> set tree_two" by blast
  from 1 2 3 4 5 show ?thesis
    by (simp add: compute_data_hash_def rglob_def)
qed

lemma insort_key_map_same_key:
  assumes "\<And>e. f (g e) = f e"
  shows "insort_key f (g x) (map g xs) = map g (insort_key f x xs)"
  by (induction xs) (simp_all add: assms)

lemma sort_key_map_same_key:
  assumes "\<And>e. f (g e) = f e"
  shows "sort_key f (map g xs) = map g (sort_key f xs)"
proof (induction xs)
  case Nil
  then show ?case by simp
next
  case (Cons x xs)
  have "insort_key f (g x) (map g (sort_key f xs)) = map g (insort_key f x (sort_key f xs))"
    using assms by (rule insort_key_map_same_key [of f g])
  with Cons show ?case by simp
qed

lemma hash_loop_append:
  "hash_loop (fs @ gs) h = hash_loop gs (hash_loop fs h)"
  by (induction fs h rule: hash_loop.induct) simp_all

lemma hash_loop_from: "hash_loop fs h = h @ hash_loop fs []"
  by (induction fs h rule: hash_loop.induct) (simp_all add: update_def hash_loop_concat)

lemma hash_loop_split:
  "hash_loop (l1 @ (p, File b) # l2) [] =
     hash_loop l1 [] @ encode (str_path p) @ b @ hash_loop l2 []"
proof -
  have "hash_loop (l1 @ (p, File b) # l2) [] = hash_loop ((p, File b) # l2) (hash_loop l1 [])"
    by (rule hash_loop_append)
  also have "\<dots> = hash_loop l2 (hash_loop l1 [] @ encode (str_path p) @ b)"
    by (simp add: update_def)
  also have "\<dots> = (hash_loop l1 [] @ encode (str_path p) @ b) @ hash_loop l2 []"
    by (rule hash_loop_from)
  finally show ?thesis by simp
qed

text \<open>
  What the stream does tell apart: two trees that differ in the bytes of one file only,
  whatever the lengths. The bytes fed to the accumulator differ, so the fingerprints
  differ up to a collision of the digest.
\<close>

lemma one_file_change_detected:
  assumes d: "distinct (map fst d)" and m: "(p, File b) \<in> set d" and ne: "b' \<noteq> b"
  shows "hash_loop (sorted_paths (map (\<lambda>e. if fst e = p then (p, File b') else e) d)) [] \<noteq>
         hash_loop (sorted_paths d) []"
proof -
  let ?g = "\<lambda>e. if fst e = p then (p, File b') else e"
  have key: "fst (?g e) = fst e" for e by simp
  have comm: "sorted_paths (map ?g d) = map ?g (sorted_paths d)"
    unfolding sorted_paths_def using key by (rule sort_key_map_same_key [of fst ?g])
  from m have "(p, File b) \<in> set (sorted_paths d)" by (simp add: sorted_paths_def)
  then obtain l1 l2 where s: "sorted_paths d = l1 @ (p, File b) # l2"
    by (auto dest: split_list)
  have "mset (map fst (sorted_paths d)) = mset (map fst d)" by (simp add: sorted_paths_def)
  from mset_eq_imp_distinct_iff [OF this] d have "distinct (map fst (sorted_paths d))" by simp
  with s have out: "p \<notin> fst ` set l1" "p \<notin> fst ` set l2" by auto
  have "?g e = e" if "e \<in> set l1 \<or> e \<in> set l2" for e
  proof -
    from that out have "fst e \<noteq> p" by (metis imageI)
    then show ?thesis by simp
  qed
  then have "map ?g l1 = l1" "map ?g l2 = l2"
    by (simp_all add: map_idI)
  with s have "map ?g (sorted_paths d) = l1 @ (p, File b') # l2" by simp
  with comm have "hash_loop (sorted_paths (map ?g d)) [] =
      hash_loop l1 [] @ encode (str_path p) @ b' @ hash_loop l2 []"
    by (simp add: hash_loop_split)
  moreover from s have "hash_loop (sorted_paths d) [] =
      hash_loop l1 [] @ encode (str_path p) @ b @ hash_loop l2 []"
    by (simp add: hash_loop_split)
  ultimately show ?thesis using ne by simp
qed

lemma one_file_change_example:
  "distinct (map fst tree_two) \<and> ([''b.mp3''], File []) \<in> set tree_two
   \<and> hash_loop (sorted_paths [([''a.mp3''], File []), ([''b.mp3''], File [7])]) [] \<noteq>
       hash_loop (sorted_paths tree_two) []"
proof -
  have d: "distinct (map fst tree_two)" and m: "([''b.mp3''], File []) \<in> set tree_two"
    by (simp_all add: tree_two_def)
  have ne: "[7 :: byte] \<noteq> []" by simp
  have "map (\<lambda>e. if fst e = [''b.mp3''] then ([''b.mp3''], File [7]) else e) tree_two =
      [([''a.mp3''], File []), ([''b.mp3''], File [7])]"
    by (simp add: tree_two_def)
  with one_file_change_detected [OF d m ne] d m show ?thesis by simp
qed

section \<open>The Asset Preparer: the whole run\<close>

lemma has_files_build_dir:
  "build_dir v = build_dir w \<Longrightarrow> has_files v = has_files w"
  by (simp add: has_files_def)

lemma has_files_perm:
  assumes "build_dir w = Some b" "build_dir v = Some b'" "mset b' = mset b"
  shows "has_files v = has_files w"
proof -
  from assms(3) have "set b' = set b" by (rule mset_eq_setD)
  with assms(1,2) show ?thesis
    by (simp add: has_files_def rglob_def list_ex_iff)
qed

lemma prepare_littlefs_run:
  assumes "has_files w" "build_dir w = Some b"
  shows "prepare_littlefs gz w =
    (case prepare_loop gz (sorted_paths b) ([], 0) of
       Inl e \<Rightarrow> Inl e
     | Inr (data, cnt) \<Rightarrow>
         Inr (w\<lparr>build_dir := Some (cleanup b), data_dir := Some data,
                stdout := stdout w @
                  [''LittleFS: Prepared '' @ show_nat cnt @ '' web assets in data/'']\<rparr>))"
  using assms
  by (simp add: prepare_littlefs_def prepare_def bind_err_def rglob_def split: sum.splits)

lemma prepare_littlefs_data:
  assumes "has_files w" "build_dir w = Some b" "prepare_littlefs gz w = Inr w1"
  shows "\<exists>data cnt. prepare_loop gz (sorted_paths b) ([], 0) = Inr (data, cnt) \<and>
    data_dir w1 = Some data"
proof (cases "prepare_loop gz (sorted_paths b) ([], 0)")
  case (Inl e)
  with assms show ?thesis by (simp add: prepare_littlefs_run)
next
  case (Inr st)
  obtain data cnt where st: "st = (data, cnt)" by (cases st)
  from assms(3) have "data_dir w1 = Some data"
    unfolding prepare_littlefs_run [OF assms(1,2)] Inr st by auto
  with Inr st show ?thesis by simp
qed

lemma prepare_littlefs_again:
  assumes "has_files v" "build_dir v = Some b"
    "prepare_loop gz (sorted_paths b) ([], 0) = Inr (data, cnt)"
  shows "\<exists>v1. prepare_littlefs gz v = Inr v1 \<and> data_dir v1 = Some data"
  unfolding prepare_littlefs_run [OF assms(1,2)] assms(3) by simp

lemma prepare_littlefs_skip:
  assumes "\<not> has_files w"
  shows "\<exists>w'. prepare_littlefs gz w = Inr w' \<and> data_dir w' = data_dir w \<and>
    build_dir w' = build_dir w"
  using assms by (simp add: prepare_littlefs_def)



text \<open>
  C8 (idempotence). Let a run of the Preparer on the world \<open>w\<close> return \<open>w1\<close>.
  \<^item> Running it again on the same source input (the world after the first run, with
    \<^verbatim>\<open>src/web/build\<close> as it was before it) returns too, with the same \<^verbatim>\<open>data/\<close>
    tree: the same paths, the same bytes.
  \<^item> When \<open>w\<close> has eligible files, a run on any world \<open>v\<close> whose \<^verbatim>\<open>src/web/build\<close> has
    the same entries, listed in any order, returns with that same tree, whatever
    \<open>v\<close> had in \<^verbatim>\<open>data/\<close>: the tree is rebuilt from the source alone, with
    \<^verbatim>\<open>gzip.compress\<close> always called at level 9 with \<^verbatim>\<open>mtime=0\<close>.
  \<^item> When the cleanup of the first run left no eligible file, a second run straight
    after it keeps the tree.
\<close>

theorem preparer_idempotence:
  assumes run: "prepare_littlefs gz w = Inr w1"
  shows "(\<exists>w2. prepare_littlefs gz (w1\<lparr>build_dir := build_dir w\<rparr>) = Inr w2 \<and>
            data_dir w2 = data_dir w1)
       \<and> (has_files w \<and> build_dir w = Some b \<and> build_dir v = Some b' \<and>
            mset b' = mset b \<and> distinct (map fst b) \<longrightarrow>
            (\<exists>v1. prepare_littlefs gz v = Inr v1 \<and> data_dir v1 = data_dir w1))
       \<and> (\<not> has_files w1 \<longrightarrow>
            (\<exists>w2. prepare_littlefs gz w1 = Inr w2 \<and> data_dir w2 = data_dir w1))"
proof (intro conjI impI)
  let ?w' = "w1\<lparr>build_dir := build_dir w\<rparr>"
  have same: "has_files ?w' = has_files w"
    by (rule has_files_build_dir) simp
  show "\<exists>w2. prepare_littlefs gz ?w' = Inr w2 \<and> data_dir w2 = data_dir w1"
  proof (cases "has_files w")
    case True
    then obtain b where b: "build_dir w = Some b"
      by (auto simp: has_files_def split: option.splits)
    from prepare_littlefs_data [OF True b run] obtain data cnt where
      loop: "prepare_loop gz (sorted_paths b) ([], 0) = Inr (data, cnt)" and
      d1: "data_dir w1 = Some data"
      by blast
    from True same have h: "has_files ?w'" by simp
    have b': "build_dir ?w' = Some b" using b by simp
    from prepare_littlefs_again [OF h b' loop] d1 show ?thesis by simp
  next
    case False
    with same have "\<not> has_files ?w'" by simp
    from prepare_littlefs_skip [OF this, of gz] show ?thesis by auto
  qed
next
  assume a: "has_files w \<and> build_dir w = Some b \<and> build_dir v = Some b' \<and>
      mset b' = mset b \<and> distinct (map fst b)"
  then have hw: "has_files w" and b: "build_dir w = Some b" and b': "build_dir v = Some b'"
    and p: "mset b' = mset b" and d: "distinct (map fst b)"
    by simp_all
  from prepare_littlefs_data [OF hw b run] obtain data cnt where
    loop: "prepare_loop gz (sorted_paths b) ([], 0) = Inr (data, cnt)" and
    d1: "data_dir w1 = Some data"
    by blast
  have hv: "has_files v" using has_files_perm [OF b b' p] hw by simp
  have "sorted_paths b' = sorted_paths b" using d p by (rule sorted_paths_perm)
  with loop have "prepare_loop gz (sorted_paths b') ([], 0) = Inr (data, cnt)" by simp
  from prepare_littlefs_again [OF hv b' this] d1
  show "\<exists>v1. prepare_littlefs gz v = Inr v1 \<and> data_dir v1 = data_dir w1"
    by simp
next
  assume "\<not> has_files w1"
  from prepare_littlefs_skip [OF this, of gz]
  show "\<exists>w2. prepare_littlefs gz w1 = Inr w2 \<and> data_dir w2 = data_dir w1" by auto
qed

text \<open>
  The project \<open>w_src\<close>: its two source files give \<^verbatim>\<open>x.js.gz\<close> and \<^verbatim>\<open>x.mp3\<close>, in place
  of the old output; a second run on the restored source, a run on the same source
  listed in the other order, and a run straight after the first give the same tree.
\<close>

theorem preparer_idempotence_witness:
  "\<exists>w1. prepare_littlefs ex_gz w_src = Inr w1
     \<and> data_dir w1 = Some [([''x.js.gz''], File [0x1F, 0x8B, 3]), ([''x.mp3''], File [1, 2])]
     \<and> (\<exists>w2. prepare_littlefs ex_gz (w1\<lparr>build_dir := build_dir w_src\<rparr>) = Inr w2 \<and>
               data_dir w2 = data_dir w1)
     \<and> (\<exists>v1. prepare_littlefs ex_gz w_src_rev = Inr v1 \<and> data_dir v1 = data_dir w1)
     \<and> (\<exists>w2. prepare_littlefs ex_gz w1 = Inr w2 \<and> data_dir w2 = data_dir w1)"
proof -
  define w1 where "w1 =
    \<lparr>build_dir = Some [],
     data_dir = Some [([''x.js.gz''], File [0x1F, 0x8B, 3]), ([''x.mp3''], File [1, 2])],
     hash_file = None, stdout = [''LittleFS: Prepared 2 web assets in data/''],
     stderr = [], uploads = []\<rparr>"
  have run: "prepare_littlefs ex_gz w_src = Inr w1"
    by (simp add: w1_def w_src_def prepare_littlefs_def has_files_def prepare_def rglob_def
        sorted_paths_def classify_defs fs_defs cleanup_def iterdir_def show_nat.simps ex_gz_def)
  have hw: "has_files w_src"
    by (simp add: w_src_def has_files_def rglob_def classify_defs)
  have b: "build_dir w_src = Some [([''x.nogz.mp3''], File [1, 2]), ([''x.js''], File [3])]"
    and b': "build_dir w_src_rev = Some [([''x.js''], File [3]), ([''x.nogz.mp3''], File [1, 2])]"
    by (simp_all add: w_src_def w_src_rev_def)
  have p: "mset [([''x.js''], File [3 :: byte]), ([''x.nogz.mp3''], File [1, 2])] =
      mset [([''x.nogz.mp3''], File [1, 2]), ([''x.js''], File [3])]"
    by simp
  have d: "distinct (map fst [([''x.nogz.mp3''], File [1 :: byte, 2]), ([''x.js''], File [3])])"
    by simp
  have h1: "\<not> has_files w1"
    by (simp add: w1_def has_files_def rglob_def)
  note inst = preparer_idempotence [OF run, where v = w_src_rev
      and b = "[([''x.nogz.mp3''], File [1, 2]), ([''x.js''], File [3])]"
      and b' = "[([''x.js''], File [3]), ([''x.nogz.mp3''], File [1, 2])]"]
  from inst have 1: "\<exists>w2. prepare_littlefs ex_gz (w1\<lparr>build_dir := build_dir w_src\<rparr>) = Inr w2 \<and>
      data_dir w2 = data_dir w1"
    by (rule conjunct1)
  from inst hw b b' p d
  have 2: "\<exists>v1. prepare_littlefs ex_gz w_src_rev = Inr v1 \<and> data_dir v1 = data_dir w1"
    by blast
  from inst h1 have 3: "\<exists>w2. prepare_littlefs ex_gz w1 = Inr w2 \<and> data_dir w2 = data_dir w1"
    by blast
  have dd: "data_dir w1 =
      Some [([''x.js.gz''], File [0x1F, 0x8B, 3]), ([''x.mp3''], File [1, 2])]"
    by (simp add: w1_def)
  from run dd 1 2 3 show ?thesis by blast
qed

section \<open>The Asset Preparer: canonical paths\<close>

lemma split_on_nonempty: "split_on sep s \<noteq> []"
  by (induction s) (auto split: list.splits)






















end
